theory Spec2Isabelle
  imports Main "HOL-Library.Sublist"
begin

section \<open>JavaScript values and strings\<close>

text \<open>
  The citation engine lives in the \<^verbatim>\<open>PdfPane\<close> component. Two copies of that component are in
  the repository: one that searches the whole document for the quote, and an older,
  hint-driven one that follows \<^verbatim>\<open>ChatPane\<close> in \<^verbatim>\<open>ChatPane.jsx\<close>. The first is modelled under
  the source's names, the second with the suffix \<open>_alt\<close>.

  A JavaScript string is a sequence of UTF-16 code units. The model covers the code units
  0..255, one \<^typ>\<open>char\<close> each. A value that may be missing is a \<open>jsval\<close>.
\<close>

datatype jsval = Undefined | Null | Str string

datatype error = TypeError

text \<open>\<^verbatim>\<open>!v\<close>: undefined, null and the empty string are falsy.\<close>

definition falsy :: "jsval \<Rightarrow> bool" where
  "falsy v = (case v of Undefined \<Rightarrow> True | Null \<Rightarrow> True | Str s \<Rightarrow> s = [])"

text \<open>\<^verbatim>\<open>(s || "")\<close>\<close>

definition orEmpty :: "jsval \<Rightarrow> string" where
  "orEmpty v = (case v of Undefined \<Rightarrow> [] | Null \<Rightarrow> [] | Str s \<Rightarrow> s)"

text \<open>
  The regular expression class \<^verbatim>\<open>\s\<close> (and the characters removed by \<^verbatim>\<open>trim\<close>) below
  code unit 256: tab, line feed, vertical tab, form feed, carriage return, space and the
  no-break space. The class \<^verbatim>\<open>\w\<close> is \<^verbatim>\<open>[A-Za-z0-9_]\<close>.
\<close>

definition is_space :: "char \<Rightarrow> bool" where
  "is_space c = (of_char c \<in> {9, 10, 11, 12, 13, 32, 160 :: nat})"

definition is_word :: "char \<Rightarrow> bool" where
  "is_word c = (let n = of_char c :: nat in
     (48 \<le> n \<and> n \<le> 57) \<or> (65 \<le> n \<and> n \<le> 90) \<or> n = 95 \<or> (97 \<le> n \<and> n \<le> 122))"

text \<open>
  \<^verbatim>\<open>toLowerCase\<close> on one code unit: A..Z and the Latin-1 capitals (all of 192..222 but the
  multiplication sign 215) move up by 32.
\<close>

definition lowerChar :: "char \<Rightarrow> char" where
  "lowerChar c = (let n = of_char c :: nat in
     if (65 \<le> n \<and> n \<le> 90) \<or> (192 \<le> n \<and> n \<le> 222 \<and> n \<noteq> 215)
     then char_of (n + 32) else c)"

definition toLowerCase :: "string \<Rightarrow> string" where
  "toLowerCase s = map lowerChar s"

text \<open>\<^verbatim>\<open>s.replace(/\s+/g, " ")\<close>: every maximal run of white space becomes one space.\<close>

function collapseSpaces :: "string \<Rightarrow> string" where
  "collapseSpaces [] = []"
| "collapseSpaces (c # cs) =
     (if is_space c then CHR '' '' # collapseSpaces (dropWhile is_space cs)
      else c # collapseSpaces cs)"
  by pat_completeness auto
termination
  by (relation "measure length") (auto simp: less_Suc_eq_le length_dropWhile_le)

text \<open>\<^verbatim>\<open>s.trim()\<close>: white space is removed at the end, then at the start.\<close>

fun trimEnd :: "string \<Rightarrow> string" where
  "trimEnd [] = []"
| "trimEnd (c # cs) = (let r = trimEnd cs in if r = [] \<and> is_space c then [] else c # r)"

definition trim :: "string \<Rightarrow> string" where
  "trim s = dropWhile is_space (trimEnd s)"

text \<open>\<^verbatim>\<open>s.replace(/[^\w\s]/g, " ")\<close> and \<^verbatim>\<open>s.replace(/[^\w\s]/g, "")\<close>.\<close>

definition punctToSpace :: "string \<Rightarrow> string" where
  "punctToSpace s = map (\<lambda>c. if \<not> is_word c \<and> \<not> is_space c then CHR '' '' else c) s"

definition stripPunct :: "string \<Rightarrow> string" where
  "stripPunct s = filter (\<lambda>c. is_word c \<or> is_space c) s"

text \<open>\<^verbatim>\<open>xs.join(" ")\<close>\<close>

fun join :: "string list \<Rightarrow> string" where
  "join [] = []"
| "join [s] = s"
| "join (s # t # ts) = s @ CHR '' '' # join (t # ts)"

text \<open>
  \<^verbatim>\<open>s.indexOf(t)\<close>: the first position at which \<open>t\<close> occurs in \<open>s\<close>; \<open>None\<close> stands for
  JavaScript's \<open>-1\<close>. \<^verbatim>\<open>s.includes(t)\<close> is \<^verbatim>\<open>s.indexOf(t) !== -1\<close>.
\<close>

fun indexOf :: "string \<Rightarrow> string \<Rightarrow> nat option" where
  "indexOf [] t = (if t = [] then Some 0 else None)"
| "indexOf (c # cs) t =
     (if prefix t (c # cs) then Some 0 else map_option Suc (indexOf cs t))"

definition includesStr :: "string \<Rightarrow> string \<Rightarrow> bool" where
  "includesStr s t = (indexOf s t \<noteq> None)"

text \<open>\<^verbatim>\<open>s.split(" ")\<close>\<close>

fun splitSpace :: "string \<Rightarrow> string list" where
  "splitSpace [] = [[]]"
| "splitSpace (c # cs) =
     (if c = CHR '' '' then [] # splitSpace cs
      else (case splitSpace cs of [] \<Rightarrow> [[c]] | w # ws \<Rightarrow> (c # w) # ws))"

text \<open>
  A string in which white space occurs only as single spaces: what \<open>collapseSpaces\<close>
  produces and leaves alone.
\<close>

fun spaced :: "string \<Rightarrow> bool" where
  "spaced [] = True"
| "spaced (c # cs) = ((is_space c \<longrightarrow> c = CHR '' '' \<and> (cs = [] \<or> \<not> is_space (hd cs))) \<and> spaced cs)"

section \<open>The three normalizers\<close>

text \<open>
  \<^verbatim>\<open>const norm = (s) => (s || "").replace(/\s+/g, " ").trim().toLowerCase();\<close>
  (both copies of PdfPane)
\<close>

definition norm :: "jsval \<Rightarrow> string" where
  "norm s = toLowerCase (trim (collapseSpaces (orEmpty s)))"

text \<open>
  \<^verbatim>\<open>const normalize = (s) =>
    (s || "").toLowerCase().replace(/[^\w\s]/g, "").replace(/\s+/g, " ").trim();\<close>
  (ChatPane; \<open>normalize\<close> is taken in HOL, hence the suffix)
\<close>

definition normalize_chat :: "jsval \<Rightarrow> string" where
  "normalize_chat s = trim (collapseSpaces (stripPunct (toLowerCase (orEmpty s))))"

text \<open>
  \<^verbatim>\<open>const normalizeText = (text) =>
    text.toLowerCase().replace(/\s+/g, ' ').replace(/[^\w\s]/g, ' ').trim();\<close>
  (inside highlightQuote of the full-document PdfPane). On a string it is \<open>normalizeText\<close>;
  there is no \<^verbatim>\<open>|| ""\<close>, so on undefined or null the method call \<^verbatim>\<open>text.toLowerCase()\<close>
  throws a TypeError, which \<open>normalizeText_val\<close> records.
\<close>

definition normalizeText :: "string \<Rightarrow> string" where
  "normalizeText t = trim (punctToSpace (collapseSpaces (toLowerCase t)))"

definition normalizeText_val :: "jsval \<Rightarrow> error + string" where
  "normalizeText_val v =
     (case v of Undefined \<Rightarrow> Inl TypeError | Null \<Rightarrow> Inl TypeError
      | Str s \<Rightarrow> Inr (normalizeText s))"

section \<open>The rendered document\<close>

text \<open>
  A text fragment is a \<^verbatim>\<open>span\<close> of a page's text layer: its \<^verbatim>\<open>textContent\<close> and the two
  marker attributes the code sets, \<^verbatim>\<open>data-pdf-highlight\<close> (full-document copy) and
  \<^verbatim>\<open>data-hl\<close> (older copy). The text layer is taken as the flat list of its spans in
  document order. Between two spans the layer may hold an element that is not a span (the
  renderer puts a \<^verbatim>\<open>br\<close> after the last span of a line): \<open>afterBreak\<close> says that the
  element just before the span is not a span, so that the span's
  \<^verbatim>\<open>previousElementSibling\<close> is the span before it in the list exactly when \<open>afterBreak\<close>
  is false. Elements that are not spans carry no text and are never read; attributes set
  on them are not tracked. A page's host element either holds a text layer
  (\<^verbatim>\<open>.react-pdf__Page__textContent\<close>) or not yet; \<open>pageRefs\<close> maps a page number to its
  host element once the page is mounted.
\<close>

record span =
  textContent :: string
  pdf_highlight :: bool
  hl :: bool
  afterBreak :: bool

type_synonym textLayer = "span list"

type_synonym host = "textLayer option"

text \<open>
  What the component does to the outside, in the order it happens: scrolling, the transient
  ring round a page, and the two console messages that tell a found quote from a missing one.
\<close>

datatype effect =
    ScrollIntoView nat
  | RingOn nat
  | RingOff nat
  | LogFound nat
  | LogNotFound

record pdfPane =
  numPages :: "nat option"
  pageRefs :: "nat \<rightharpoonup> host"
  pageTextsRef :: "nat \<rightharpoonup> string"
  effects :: "effect list"

text \<open>The argument of \<^verbatim>\<open>jumpTo({ page: target, quote, searchPages })\<close>.\<close>

record citation =
  page :: "int option"
  quote :: jsval
  searchPages :: "nat list option"

text \<open>\<^verbatim>\<open>numPages || 1\<close> and \<^verbatim>\<open>numPages || 0\<close>\<close>

definition numPagesOr :: "nat \<Rightarrow> nat option \<Rightarrow> nat" where
  "numPagesOr d np = (case np of None \<Rightarrow> d | Some n \<Rightarrow> if n = 0 then d else n)"

section \<open>highlightQuote, full-document copy\<close>

text \<open>
  Clearing: every element of the text layer that carries \<^verbatim>\<open>data-pdf-highlight\<close> loses it.
\<close>

definition clearHighlights :: "textLayer \<Rightarrow> textLayer" where
  "clearHighlights layer =
     map (\<lambda>s. if pdf_highlight s then s\<lparr>pdf_highlight := False\<rparr> else s) layer"

text \<open>
  \<^verbatim>\<open>spanMap\<close> pairs each span with its own normalized text; \<^verbatim>\<open>fullPageText\<close> joins the
  normalized texts, \<^verbatim>\<open>combinedNormalized\<close> normalizes the join of the raw texts.
\<close>

definition spanMap :: "textLayer \<Rightarrow> (span \<times> string) list" where
  "spanMap spans = map (\<lambda>s. (s, normalizeText (textContent s))) spans"

definition fullPageText :: "textLayer \<Rightarrow> string" where
  "fullPageText spans = join (map snd (spanMap spans))"

definition combinedNormalized :: "textLayer \<Rightarrow> string" where
  "combinedNormalized spans = normalizeText (join (map (\<lambda>e. textContent (fst e)) (spanMap spans)))"

text \<open>
  The gate before the ratio search:
  \<^verbatim>\<open>fullPageText.includes(searchQuery.substring(0, Math.min(15, searchQuery.length)))\<close>
\<close>

definition gate :: "textLayer \<Rightarrow> string \<Rightarrow> bool" where
  "gate spans searchQuery =
     includesStr (fullPageText spans) (take (min 15 (length searchQuery)) searchQuery)"

text \<open>
  \<^verbatim>\<open>searchLengths = [1.0, 0.75, 0.5]\<close>, each ratio as a fraction: the products
  \<^verbatim>\<open>length * 0.75\<close> and \<^verbatim>\<open>length * 0.5\<close> are exact in binary floating point, so
  \<^verbatim>\<open>Math.floor(length * ratio)\<close> is the integer quotient.
\<close>

definition searchLengths :: "(nat \<times> nat) list" where
  "searchLengths = [(1, 1), (3, 4), (1, 2)]"

definition searchLength :: "string \<Rightarrow> nat \<times> nat \<Rightarrow> nat" where
  "searchLength searchQuery ratio = length searchQuery * fst ratio div snd ratio"

text \<open>
  The loop over the ratios up to its \<^verbatim>\<open>break\<close>: the first ratio whose prefix of the query
  occurs in the combined text, with \<^verbatim>\<open>matchIndex\<close> and \<^verbatim>\<open>matchEnd\<close>.
\<close>

fun findMatch :: "(nat \<times> nat) list \<Rightarrow> string \<Rightarrow> string \<Rightarrow> ((nat \<times> nat) \<times> nat \<times> nat) option" where
  "findMatch [] combined searchQuery = None"
| "findMatch (ratio # ratios) combined searchQuery =
     (let searchText = take (searchLength searchQuery ratio) searchQuery in
      case indexOf combined searchText of
        Some matchIndex \<Rightarrow> Some (ratio, matchIndex, matchIndex + length searchText)
      | None \<Rightarrow> findMatch ratios combined searchQuery)"

text \<open>
  The inner loop over \<^verbatim>\<open>spanMap\<close>, from \<^verbatim>\<open>currentPos\<close>: a span is marked when
  \<^verbatim>\<open>spanStart < matchEnd && spanEnd > matchIndex\<close>, where
  \<^verbatim>\<open>spanEnd = currentPos + span.normalized.length + 1\<close>. The result is the spans after the
  loop and the number of spans marked (\<^verbatim>\<open>highlightedSpans\<close>).
\<close>

fun markSpans :: "nat \<Rightarrow> nat \<Rightarrow> nat \<Rightarrow> (span \<times> string) list \<Rightarrow> span list \<times> nat" where
  "markSpans currentPos matchIndex matchEnd [] = ([], 0)"
| "markSpans currentPos matchIndex matchEnd (e # es) =
     (let spanStart = currentPos;
          spanEnd = currentPos + length (snd e) + 1;
          rest = markSpans spanEnd matchIndex matchEnd es
      in if spanStart < matchEnd \<and> spanEnd > matchIndex
         then ((fst e)\<lparr>pdf_highlight := True\<rparr> # fst rest, Suc (snd rest))
         else (fst e # fst rest, snd rest))"

text \<open>
  The body of \<^verbatim>\<open>highlightQuote\<close> once the text layer is in hand: clear, give up on a layer
  without spans, apply the gate, search, mark, and report whether a span was marked.
\<close>

definition highlightQuote_layer :: "textLayer \<Rightarrow> string \<Rightarrow> bool \<times> textLayer" where
  "highlightQuote_layer layer q =
     (let spans = clearHighlights layer in
      if spans = [] then (False, spans)
      else
        let searchQuery = normalizeText q in
        if \<not> gate spans searchQuery then (False, spans)
        else
          (case findMatch searchLengths (combinedNormalized spans) searchQuery of
             None \<Rightarrow> (False, spans)
           | Some (ratio, matchIndex, matchEnd) \<Rightarrow>
               (let marked = markSpans 0 matchIndex matchEnd (spanMap spans)
                in (snd marked > 0, fst marked))))"

text \<open>
  \<^verbatim>\<open>highlightQuote(p, quote)\<close>: no host element or no text layer gives \<^verbatim>\<open>false\<close> and touches
  nothing; otherwise the page's own text layer, and no other, is rewritten.
\<close>

definition highlightQuote :: "(nat \<rightharpoonup> host) \<Rightarrow> nat \<Rightarrow> string \<Rightarrow> bool \<times> (nat \<rightharpoonup> host)" where
  "highlightQuote refs p q =
     (case refs p of
        None \<Rightarrow> (False, refs)
      | Some None \<Rightarrow> (False, refs)
      | Some (Some layer) \<Rightarrow>
          (let r = highlightQuote_layer layer q in (fst r, refs(p \<mapsto> Some (snd r)))))"

section \<open>jumpTo, full-document copy\<close>

text \<open>
  The page loop \<^verbatim>\<open>for (pageNum = 1; pageNum <= (numPages || 1); pageNum++)\<close> over the list of
  its page numbers: a page without host element is skipped (\<^verbatim>\<open>continue\<close>), the first page on
  which \<^verbatim>\<open>highlightQuote\<close> succeeds ends the loop (\<^verbatim>\<open>break\<close>).
\<close>

fun searchAllPages :: "nat list \<Rightarrow> string \<Rightarrow> (nat \<rightharpoonup> host) \<Rightarrow> nat option \<times> (nat \<rightharpoonup> host)" where
  "searchAllPages [] q refs = (None, refs)"
| "searchAllPages (pageNum # rest) q refs =
     (case refs pageNum of
        None \<Rightarrow> searchAllPages rest q refs
      | Some el \<Rightarrow>
          (let r = highlightQuote refs pageNum q in
           if fst r then (Some pageNum, snd r) else searchAllPages rest q (snd r)))"

text \<open>
  \<^verbatim>\<open>jumpTo\<close>. Without a quote: scroll to page 1 if it is mounted, and return. With one: search
  every page; on success the ring and the scroll follow after 100 ms and the ring goes after
  3 s more (the timers are taken to fire before the next call); otherwise the fallback
  scroll to page 1. The hint \<^verbatim>\<open>target\<close> and \<^verbatim>\<open>searchPages\<close> are never read.
\<close>

definition scrollToFirst :: "(nat \<rightharpoonup> host) \<Rightarrow> effect list" where
  "scrollToFirst refs = (case refs 1 of None \<Rightarrow> [] | Some el \<Rightarrow> [ScrollIntoView 1])"

definition jumpTo :: "pdfPane \<Rightarrow> citation \<Rightarrow> pdfPane" where
  "jumpTo st c =
     (if falsy (quote c) then st\<lparr>effects := effects st @ scrollToFirst (pageRefs st)\<rparr>
      else
        let r = searchAllPages [1 ..< Suc (numPagesOr 1 (numPages st))] (orEmpty (quote c)) (pageRefs st)
        in case fst r of
             Some foundPage \<Rightarrow>
               st\<lparr>pageRefs := snd r,
                  effects := effects st @
                    [LogFound foundPage, RingOn foundPage, ScrollIntoView foundPage, RingOff foundPage]\<rparr>
           | None \<Rightarrow>
               st\<lparr>pageRefs := snd r,
                  effects := effects st @ LogNotFound # scrollToFirst (snd r)\<rparr>)"

section \<open>The quote as a JavaScript value\<close>




section \<open>Text extraction and the page text cache\<close>

text \<open>
  \<^verbatim>\<open>extractText\<close> of \<^verbatim>\<open>onPageRender\<close>, on the host element's content at the time of the attempt:
  the joined text is stored only when it is not blank.
\<close>

definition extractText :: "nat \<Rightarrow> host \<Rightarrow> (nat \<rightharpoonup> string) \<Rightarrow> bool \<times> (nat \<rightharpoonup> string)" where
  "extractText p h cache =
     (case h of
        None \<Rightarrow> (False, cache)
      | Some spans \<Rightarrow>
          (let text = join (map textContent spans) in
           if length (trim text) > 0 then (True, cache(p \<mapsto> text)) else (False, cache)))"

text \<open>
  \<^verbatim>\<open>onPageRender(p)\<close>: nothing without a host element; else one attempt at once and, if it
  fails, exactly one more after 100 ms, on what the same host element holds by then
  (\<open>later\<close>). The result also counts the attempts made. (The width calibration that
  \<^verbatim>\<open>onPageRender\<close> does on page 1 touches neither the cache nor the text layer and is left
  out.)
\<close>

definition onPageRender :: "pdfPane \<Rightarrow> nat \<Rightarrow> host \<Rightarrow> pdfPane \<times> nat" where
  "onPageRender st p later =
     (case pageRefs st p of
        None \<Rightarrow> (st, 0)
      | Some h \<Rightarrow>
          (let r = extractText p h (pageTextsRef st) in
           if fst r then (st\<lparr>pageTextsRef := snd r\<rparr>, 1)
           else (st\<lparr>pageTextsRef := snd (extractText p later (snd r))\<rparr>, 2)))"

text \<open>\<^verbatim>\<open>getPageTexts()\<close>: one entry per page 1..numPages, \<^verbatim>\<open>pageTextsRef.get(i) || ""\<close>.\<close>

definition getPageTexts :: "pdfPane \<Rightarrow> (nat \<times> string) list" where
  "getPageTexts st =
     map (\<lambda>i. (i, case pageTextsRef st i of None \<Rightarrow> [] | Some t \<Rightarrow> t))
         [1 ..< Suc (numPagesOr 0 (numPages st))]"

text \<open>
  \<^verbatim>\<open>forceTextExtraction()\<close>: for every page 1..numPages with host element and text layer the
  joined text is stored, blank or not.
\<close>

definition forceOne :: "(nat \<rightharpoonup> host) \<Rightarrow> nat \<Rightarrow> (nat \<rightharpoonup> string) \<Rightarrow> (nat \<rightharpoonup> string)" where
  "forceOne refs i cache =
     (case refs i of
        Some (Some spans) \<Rightarrow> cache(i \<mapsto> join (map textContent spans))
      | _ \<Rightarrow> cache)"

definition forceTextExtraction :: "pdfPane \<Rightarrow> pdfPane" where
  "forceTextExtraction st =
     st\<lparr>pageTextsRef :=
          fold (forceOne (pageRefs st)) [1 ..< Suc (numPagesOr 0 (numPages st))] (pageTextsRef st)\<rparr>"

section \<open>The older copy of PdfPane (appended to ChatPane.jsx)\<close>

text \<open>
  Its \<^verbatim>\<open>highlightQuote\<close> clears \<^verbatim>\<open>data-hl\<close> on the page, normalizes the quote with
  \<^verbatim>\<open>norm\<close> and looks for one span: first a span containing the whole quote, then one
  containing the 14 characters round the quote's middle, then one containing a word of the
  quote longer than 3 characters. \<^verbatim>\<open>highlightSpan\<close> marks
  \<^verbatim>\<open>[span.previousElementSibling, span, span.nextElementSibling]\<close>: the span found, the span
  before it when that is its previous element sibling, and the span after it when that is
  its next element sibling. A sibling that is not a span gets the attribute in the source
  and is outside the state here.
\<close>

definition clearHl :: "textLayer \<Rightarrow> textLayer" where
  "clearHl layer = map (\<lambda>s. if hl s then s\<lparr>hl := False\<rparr> else s) layer"

definition highlightSpan :: "nat \<Rightarrow> textLayer \<Rightarrow> textLayer" where
  "highlightSpan i spans =
     map (\<lambda>e. if fst e = i \<or>
                   (fst e + 1 = i \<and> i < length spans \<and> \<not> afterBreak (spans ! i)) \<or>
                   (fst e = i + 1 \<and> \<not> afterBreak (snd e))
                then (snd e)\<lparr>hl := True\<rparr> else snd e)
         (enumerate 0 spans)"

fun firstSpan :: "string \<Rightarrow> span list \<Rightarrow> nat option" where
  "firstSpan needle [] = None"
| "firstSpan needle (s # ss) =
     (if includesStr (norm (Str (textContent s))) needle then Some 0
      else map_option Suc (firstSpan needle ss))"

fun firstWord :: "string list \<Rightarrow> span list \<Rightarrow> nat option" where
  "firstWord [] spans = None"
| "firstWord (w # ws) spans =
     (case firstSpan w spans of Some i \<Rightarrow> Some i | None \<Rightarrow> firstWord ws spans)"

definition highlightQuote_alt_layer :: "textLayer \<Rightarrow> jsval \<Rightarrow> bool \<times> textLayer" where
  "highlightQuote_alt_layer layer qt =
     (let spans = clearHl layer; q = norm qt in
      if q = [] then (False, spans)
      else if spans = [] then (False, spans)
      else
        (case firstSpan q spans of
           Some i \<Rightarrow> (True, highlightSpan i spans)
         | None \<Rightarrow>
             (let anchor = drop (length q div 2 - 7) (take (length q div 2 + 7) q) in
              case firstSpan anchor spans of
                Some i \<Rightarrow> (True, highlightSpan i spans)
              | None \<Rightarrow>
                  (let words = filter (\<lambda>w. length w > 3) (splitSpace q) in
                   case firstWord words spans of
                     Some i \<Rightarrow> (True, highlightSpan i spans)
                   | None \<Rightarrow> (False, spans)))))"

definition highlightQuote_alt :: "(nat \<rightharpoonup> host) \<Rightarrow> nat \<Rightarrow> jsval \<Rightarrow> bool \<times> (nat \<rightharpoonup> host)" where
  "highlightQuote_alt refs p qt =
     (case refs p of
        None \<Rightarrow> (False, refs)
      | Some None \<Rightarrow> (False, refs)
      | Some (Some layer) \<Rightarrow>
          (let r = highlightQuote_alt_layer layer qt in (fst r, refs(p \<mapsto> Some (snd r)))))"

text \<open>
  Its \<^verbatim>\<open>jumpTo\<close> goes to the hinted page only:
  \<^verbatim>\<open>p = Math.min(Math.max(target || 1, 1), numPages || 1)\<close>; without host element it
  returns; else ring and scroll at once, the highlight on page \<open>p\<close> after 300 ms when there
  is a quote, the ring off after 2 s.
\<close>

definition hintedPage :: "int option \<Rightarrow> nat option \<Rightarrow> nat" where
  "hintedPage target np =
     nat (min (max (case target of None \<Rightarrow> 1 | Some t \<Rightarrow> if t = 0 then 1 else t) 1)
              (int (numPagesOr 1 np)))"

definition jumpTo_alt :: "pdfPane \<Rightarrow> citation \<Rightarrow> pdfPane" where
  "jumpTo_alt st c =
     (let p = hintedPage (page c) (numPages st) in
      case pageRefs st p of
        None \<Rightarrow> st
      | Some el \<Rightarrow>
          (if falsy (quote c)
           then st\<lparr>effects := effects st @ [RingOn p, ScrollIntoView p, RingOff p]\<rparr>
           else st\<lparr>pageRefs := snd (highlightQuote_alt (pageRefs st) p (quote c)),
                   effects := effects st @ [RingOn p, ScrollIntoView p, RingOff p]\<rparr>))"

section \<open>Reading the state\<close>

text \<open>The spans of page \<open>p\<close> that carry \<^verbatim>\<open>data-pdf-highlight\<close>.\<close>

definition highlightedOn :: "(nat \<rightharpoonup> host) \<Rightarrow> nat \<Rightarrow> span list" where
  "highlightedOn refs p =
     (case refs p of Some (Some layer) \<Rightarrow> filter pdf_highlight layer | _ \<Rightarrow> [])"

text \<open>
  A host element whose text never shows up: no text layer, or spans whose joined text is
  blank. These are the contents on which \<^verbatim>\<open>extractText\<close> fails.
\<close>

definition blank :: "host \<Rightarrow> bool" where
  "blank h = (case h of None \<Rightarrow> True | Some spans \<Rightarrow> trim (join (map textContent spans)) = [])"

text \<open>
  The fragments that the specification asks to be marked for a match range: fragment \<open>i\<close>
  occupies the positions from the sum of \<open>length text + 1\<close> over the fragments before it, for
  \<open>length text + 1\<close> positions, and is wanted when that range meets
  \<open>[matchStart, matchEnd)\<close>. The result is the list of their indices.
\<close>

fun spec_overlapping :: "nat \<Rightarrow> nat \<Rightarrow> nat \<Rightarrow> nat \<Rightarrow> string list \<Rightarrow> nat list" where
  "spec_overlapping i offset matchStart matchEnd [] = []"
| "spec_overlapping i offset matchStart matchEnd (t # ts) =
     (if offset < matchEnd \<and> matchStart < offset + length t + 1 then [i] else []) @
     spec_overlapping (Suc i) (offset + length t + 1) matchStart matchEnd ts"

text \<open>
  The pages the search runs over end at \<^verbatim>\<open>numPages || 1\<close>. A page matches a quote when
  \<^verbatim>\<open>highlightQuote\<close> returns true on it; the first match is the first such page in ascending
  order.
\<close>

definition lastPage :: "pdfPane \<Rightarrow> nat" where
  "lastPage st = numPagesOr 1 (numPages st)"

definition matchesOn :: "pdfPane \<Rightarrow> string \<Rightarrow> nat \<Rightarrow> bool" where
  "matchesOn st q p = fst (highlightQuote (pageRefs st) p q)"

definition firstMatch :: "pdfPane \<Rightarrow> string \<Rightarrow> nat option" where
  "firstMatch st q = find (matchesOn st q) [1 ..< Suc (lastPage st)]"






section \<open>Sample documents\<close>

definition plainSpan :: "string \<Rightarrow> span" where
  "plainSpan t = \<lparr>textContent = t, pdf_highlight = False, hl = False, afterBreak = False\<rparr>"

definition citing :: "int option \<Rightarrow> jsval \<Rightarrow> citation" where
  "citing target q = \<lparr>page = target, quote = q, searchPages = None\<rparr>"

definition document :: "string list list \<Rightarrow> pdfPane" where
  "document pages =
     \<lparr>numPages = Some (length pages),
      pageRefs = (\<lambda>p. if 1 \<le> p \<and> p \<le> length pages
                       then Some (Some (map plainSpan (pages ! (p - 1)))) else None),
      pageTextsRef = Map.empty,
      effects = []\<rparr>"

text \<open>
  A new source in the same component: \<^verbatim>\<open>onDocumentLoadSuccess\<close> sets \<^verbatim>\<open>numPages\<close> and the
  \<^verbatim>\<open>ref\<close> callbacks store the host elements of the new pages. No code clears
  \<^verbatim>\<open>pageRefs\<close> or \<^verbatim>\<open>pageTextsRef\<close>, so the entries of the earlier document stay.
\<close>

definition replaceDocument :: "pdfPane \<Rightarrow> string list list \<Rightarrow> pdfPane" where
  "replaceDocument st pages =
     st\<lparr>numPages := Some (length pages),
        pageRefs := (\<lambda>p. if 1 \<le> p \<and> p \<le> length pages
                          then Some (Some (map plainSpan (pages ! (p - 1)))) else pageRefs st p)\<rparr>"

section \<open>Substring search\<close>



lemma indexOf_first:
  "indexOf s t = Some i \<Longrightarrow> prefix t (drop i s) \<and> (\<forall>j<i. \<not> prefix t (drop j s))"
proof (induction s arbitrary: i)
  case Nil
  then show ?case by (simp split: if_splits)
next
  case (Cons c cs)
  show ?case
  proof (cases "prefix t (c # cs)")
    case True
    with Cons.prems show ?thesis by simp
  next
    case False
    with Cons.prems obtain k where k: "indexOf cs t = Some k" "i = Suc k" by auto
    from Cons.IH [OF k(1)] have ih: "prefix t (drop k cs)" "\<forall>j<k. \<not> prefix t (drop j cs)"
      by simp_all
    have "\<not> prefix t (drop j (c # cs))" if "j < i" for j
    proof (cases j)
      case 0
      with False show ?thesis by simp
    next
      case (Suc j')
      with that k(2) ih(2) show ?thesis by simp
    qed
    with ih(1) k(2) show ?thesis by simp
  qed
qed

lemma indexOf_Some_sublist: "indexOf s t = Some i \<Longrightarrow> sublist t s"
proof (induction s arbitrary: i)
  case Nil
  then show ?case by (simp split: if_splits)
next
  case (Cons c cs)
  then show ?case
    by (auto simp: sublist_Cons_right split: if_splits)
qed

lemma indexOf_None_iff: "indexOf s t = None \<longleftrightarrow> \<not> sublist t s"
proof (induction s)
  case Nil
  then show ?case by simp
next
  case (Cons c cs)
  then show ?case by (simp add: sublist_Cons_right)
qed

lemma includesStr_iff_sublist: "includesStr s t \<longleftrightarrow> sublist t s"
  by (simp add: includesStr_def indexOf_None_iff)

lemma indexOf_empty_text: "indexOf [] t = Some i \<Longrightarrow> t = [] \<and> i = 0"
  by (simp split: if_splits)

section \<open>Clearing, marking and the result of highlightQuote\<close>

lemma clearHighlights_none: "filter pdf_highlight (clearHighlights layer) = []"
  by (induction layer) (simp_all add: clearHighlights_def)

lemma clearHighlights_text: "map textContent (clearHighlights layer) = map textContent layer"
  by (induction layer) (simp_all add: clearHighlights_def)

lemma clearHighlights_Nil_iff: "clearHighlights layer = [] \<longleftrightarrow> layer = []"
  by (simp add: clearHighlights_def)

lemma spanMap_fst: "map fst (spanMap spans) = spans"
  by (simp add: spanMap_def comp_def)

lemma markSpans_zero:
  "snd (markSpans pos mi me es) = 0 \<Longrightarrow> fst (markSpans pos mi me es) = map fst es"
  by (induction es arbitrary: pos) (auto simp: Let_def split: if_splits)


lemma markSpans_text:
  "map textContent (fst (markSpans pos mi me es)) = map (\<lambda>e. textContent (fst e)) es"
  by (induction es arbitrary: pos) (auto simp: Let_def)

lemma markSpans_past: "me \<le> pos \<Longrightarrow> snd (markSpans pos mi me es) = 0"
  by (induction es arbitrary: pos) (auto simp: Let_def)

lemma markSpans_hit:
  "pos \<le> mi \<Longrightarrow> mi < me \<Longrightarrow> mi < pos + (\<Sum>e\<leftarrow>es. length (snd e) + 1)
     \<Longrightarrow> 0 < snd (markSpans pos mi me es)"
proof (induction es arbitrary: pos)
  case Nil
  then show ?case by simp
next
  case (Cons e es)
  show ?case
  proof (cases "mi < pos + length (snd e) + 1")
    case True
    with Cons.prems show ?thesis by (simp add: Let_def)
  next
    case False
    with Cons.prems have "0 < snd (markSpans (pos + length (snd e) + 1) mi me es)"
      by (intro Cons.IH) auto
    then show ?thesis by (simp add: Let_def)
  qed
qed

lemma highlightQuote_layer_fail_clean:
  "\<not> fst (highlightQuote_layer layer q) \<Longrightarrow> filter pdf_highlight (snd (highlightQuote_layer layer q)) = []"
  by (auto simp: highlightQuote_layer_def Let_def clearHighlights_none markSpans_zero spanMap_fst
      split: if_splits option.splits prod.splits)


lemma highlightQuote_layer_text:
  "map textContent (snd (highlightQuote_layer layer q)) = map textContent layer"
proof -
  have "map textContent (snd (highlightQuote_layer layer q)) = map textContent (clearHighlights layer)"
    by (simp add: highlightQuote_layer_def Let_def markSpans_text spanMap_def comp_def
        split: option.splits prod.splits)
  then show ?thesis by (simp add: clearHighlights_text)
qed

lemma highlightQuote_other: "p' \<noteq> p \<Longrightarrow> snd (highlightQuote refs p q) p' = refs p'"
  by (simp add: highlightQuote_def Let_def split: option.splits)

lemma highlightQuote_mounted: "snd (highlightQuote refs p q) p' = None \<longleftrightarrow> refs p' = None"
  by (simp add: highlightQuote_def Let_def split: option.splits)

lemma highlightQuote_local:
  "refs' p = refs p \<Longrightarrow> fst (highlightQuote refs' p q) = fst (highlightQuote refs p q)"
  by (simp add: highlightQuote_def Let_def split: option.splits)

lemma highlightQuote_fail_clean:
  "\<not> fst (highlightQuote refs p q) \<Longrightarrow> highlightedOn (snd (highlightQuote refs p q)) p = []"
  by (auto simp: highlightQuote_def highlightedOn_def Let_def highlightQuote_layer_fail_clean
      split: option.splits)


section \<open>The page loop\<close>

lemma searchAllPages_other:
  "p' \<notin> set ps \<Longrightarrow> snd (searchAllPages ps q refs) p' = refs p'"
proof (induction ps arbitrary: refs)
  case Nil
  then show ?case by simp
next
  case (Cons a ps)
  then show ?case
    by (auto simp: Let_def highlightQuote_other split: option.splits)
qed

lemma searchAllPages_mounted:
  "snd (searchAllPages ps q refs) p' = None \<longleftrightarrow> refs p' = None"
proof (induction ps arbitrary: refs)
  case Nil
  then show ?case by simp
next
  case (Cons a ps)
  then show ?case
    by (auto simp: Let_def highlightQuote_mounted split: option.splits)
qed

lemma highlightQuote_unmounted: "refs p = None \<Longrightarrow> \<not> fst (highlightQuote refs p q)"
  by (simp add: highlightQuote_def)

lemma searchAllPages_find:
  "distinct ps \<Longrightarrow>
   fst (searchAllPages ps q refs) = find (\<lambda>p. fst (highlightQuote refs p q)) ps"
proof (induction ps arbitrary: refs)
  case Nil
  then show ?case by simp
next
  case (Cons a ps)
  let ?refs' = "snd (highlightQuote refs a q)"
  have same: "find (\<lambda>p. fst (highlightQuote ?refs' p q)) ps = find (\<lambda>p. fst (highlightQuote refs p q)) ps"
  proof (rule find_cong)
    fix p assume "p \<in> set ps"
    with Cons.prems have "p \<noteq> a" by auto
    then have "?refs' p = refs p" by (rule highlightQuote_other)
    then show "fst (highlightQuote ?refs' p q) = fst (highlightQuote refs p q)"
      by (rule highlightQuote_local)
  qed simp
  from Cons.prems have d: "distinct ps" by simp
  show ?case
  proof (cases "refs a")
    case None
    then show ?thesis using Cons.IH [OF d, of refs] by (simp add: highlightQuote_unmounted)
  next
    case (Some el)
    then show ?thesis using Cons.IH [OF d, of ?refs'] same by (simp add: Let_def)
  qed
qed

lemma searchAllPages_none_clean:
  "distinct ps \<Longrightarrow> fst (searchAllPages ps q refs) = None \<Longrightarrow> p \<in> set ps
     \<Longrightarrow> highlightedOn (snd (searchAllPages ps q refs)) p = []"
proof (induction ps arbitrary: refs)
  case Nil
  then show ?case by simp
next
  case (Cons a ps)
  let ?refs' = "snd (highlightQuote refs a q)"
  from Cons.prems have d: "distinct ps" and a: "a \<notin> set ps" by simp_all
  show ?case
  proof (cases "refs a")
    case None
    show ?thesis
    proof (cases "p = a")
      case True
      have "snd (searchAllPages ps q refs) a = refs a" using a by (rule searchAllPages_other)
      with None True show ?thesis by (simp add: highlightedOn_def)
    next
      case False
      with Cons.prems None Cons.IH [OF d, of refs] show ?thesis by simp
    qed
  next
    case (Some el)
    with Cons.prems have fail: "\<not> fst (highlightQuote refs a q)"
      and rest: "fst (searchAllPages ps q ?refs') = None"
      by (auto simp: Let_def split: if_splits)
    show ?thesis
    proof (cases "p = a")
      case True
      have "snd (searchAllPages ps q ?refs') a = ?refs' a" using a by (rule searchAllPages_other)
      then have "highlightedOn (snd (searchAllPages ps q ?refs')) a = highlightedOn ?refs' a"
        by (simp add: highlightedOn_def)
      with fail True Some show ?thesis by (simp add: Let_def highlightQuote_fail_clean)
    next
      case False
      with Cons.prems have "p \<in> set ps" by simp
      from Cons.IH [OF d rest this] Some fail show ?thesis by (simp add: Let_def)
    qed
  qed
qed


lemma find_upt_least:
  "find P [a ..< b] = Some p \<longleftrightarrow> a \<le> p \<and> p < b \<and> P p \<and> (\<forall>p'. a \<le> p' \<and> p' < p \<longrightarrow> \<not> P p')"
proof
  assume "find P [a ..< b] = Some p"
  then obtain i where i: "i < length [a ..< b]" "P ([a ..< b] ! i)" "p = [a ..< b] ! i"
    "\<forall>j<i. \<not> P ([a ..< b] ! j)"
    unfolding find_Some_iff by blast
  then have p: "p = a + i" "i < b - a" by simp_all
  have "\<not> P p'" if "a \<le> p'" "p' < p" for p'
  proof -
    from that p have "p' - a < i" by arith
    with i(4) have "\<not> P ([a ..< b] ! (p' - a))" by blast
    moreover have "[a ..< b] ! (p' - a) = p'" using that p by simp
    ultimately show ?thesis by simp
  qed
  with i p show "a \<le> p \<and> p < b \<and> P p \<and> (\<forall>p'. a \<le> p' \<and> p' < p \<longrightarrow> \<not> P p')" by auto
next
  assume r: "a \<le> p \<and> p < b \<and> P p \<and> (\<forall>p'. a \<le> p' \<and> p' < p \<longrightarrow> \<not> P p')"
  then have "p - a < length [a ..< b]" "P ([a ..< b] ! (p - a))" "p = [a ..< b] ! (p - a)"
    by auto
  moreover have "\<forall>j<p - a. \<not> P ([a ..< b] ! j)"
    using r by auto
  ultimately show "find P [a ..< b] = Some p"
    unfolding find_Some_iff by blast
qed

lemma firstMatch_least:
  "firstMatch st q = Some p \<longleftrightarrow>
     1 \<le> p \<and> p \<le> lastPage st \<and> matchesOn st q p \<and> (\<forall>p'. 1 \<le> p' \<and> p' < p \<longrightarrow> \<not> matchesOn st q p')"
  unfolding firstMatch_def find_upt_least by auto

lemma firstMatch_None:
  "firstMatch st q = None \<longleftrightarrow> (\<forall>p. 1 \<le> p \<and> p \<le> lastPage st \<longrightarrow> \<not> matchesOn st q p)"
  unfolding firstMatch_def find_None_iff by auto

lemma search_fst:
  "fst (searchAllPages [1 ..< Suc (lastPage st)] q (pageRefs st)) = firstMatch st q"
  by (simp add: searchAllPages_find firstMatch_def matchesOn_def [abs_def])

lemma scrollToFirst_search:
  "scrollToFirst (snd (searchAllPages ps q refs)) = scrollToFirst refs"
proof -
  have "snd (searchAllPages ps q refs) 1 = None \<longleftrightarrow> refs 1 = None"
    by (rule searchAllPages_mounted)
  then show ?thesis by (auto simp: scrollToFirst_def split: option.splits)
qed

lemma jumpTo_effects:
  assumes "quote c = Str q" and "q \<noteq> []"
  shows "effects (jumpTo st c) = effects st @
     (case firstMatch st q of
        Some p \<Rightarrow> [LogFound p, RingOn p, ScrollIntoView p, RingOff p]
      | None \<Rightarrow> LogNotFound # scrollToFirst (pageRefs st))"
  using assms search_fst [of st q]
  by (simp add: jumpTo_def falsy_def orEmpty_def Let_def lastPage_def scrollToFirst_search
      split: option.splits)

lemma jumpTo_pageRefs:
  assumes "quote c = Str q" and "q \<noteq> []"
  shows "pageRefs (jumpTo st c) = snd (searchAllPages [1 ..< Suc (lastPage st)] q (pageRefs st))"
  using assms
  by (simp add: jumpTo_def falsy_def orEmpty_def Let_def lastPage_def split: option.splits)



section \<open>The gate and the ratio tiers\<close>

lemma fullPageText_texts:
  "fullPageText spans = join (map normalizeText (map textContent spans))"
  by (simp add: fullPageText_def spanMap_def comp_def)

lemma combinedNormalized_texts:
  "combinedNormalized spans = normalizeText (join (map textContent spans))"
  by (simp add: combinedNormalized_def spanMap_def comp_def)

lemma gate_clear: "gate (clearHighlights layer) sq = gate layer sq"
  by (simp add: gate_def fullPageText_texts clearHighlights_text)

lemma combinedNormalized_clear: "combinedNormalized (clearHighlights layer) = combinedNormalized layer"
  by (simp add: combinedNormalized_texts clearHighlights_text)

lemma spanMap_snd: "map snd (spanMap spans) = map normalizeText (map textContent spans)"
  by (simp add: spanMap_def comp_def)

lemma markSpans_count_cong:
  "map snd es = map snd es' \<Longrightarrow> snd (markSpans pos mi me es) = snd (markSpans pos mi me es')"
proof (induction es arbitrary: es' pos)
  case Nil
  then show ?case by simp
next
  case (Cons e es)
  then obtain e' es'' where "es' = e' # es''" "snd e = snd e'" "map snd es = map snd es''"
    by (cases es') auto
  with Cons.IH [of es''] show ?case by (simp add: Let_def)
qed

lemma markSpans_count_clear:
  "snd (markSpans pos mi me (spanMap (clearHighlights layer))) = snd (markSpans pos mi me (spanMap layer))"
  by (rule markSpans_count_cong) (simp add: spanMap_snd clearHighlights_text)

lemma highlightQuote_layer_gate:
  "\<not> gate layer (normalizeText q) \<Longrightarrow> highlightQuote_layer layer q = (False, clearHighlights layer)"
  by (simp add: highlightQuote_layer_def Let_def gate_clear)

lemma highlightQuote_layer_hit:
  assumes "layer \<noteq> []" and "gate layer (normalizeText q)"
    and "findMatch searchLengths (combinedNormalized layer) (normalizeText q) = Some (ratio, mi, me)"
  shows "fst (highlightQuote_layer layer q) = (0 < snd (markSpans 0 mi me (spanMap layer)))"
  using assms
  by (simp add: highlightQuote_layer_def Let_def gate_clear combinedNormalized_clear
      clearHighlights_Nil_iff markSpans_count_clear)

lemma findMatch_tiers:
  "findMatch searchLengths cn sq =
     (case indexOf cn sq of
        Some mi \<Rightarrow> Some ((1, 1), mi, mi + length sq)
      | None \<Rightarrow>
          (case indexOf cn (take (length sq * 3 div 4) sq) of
             Some mi \<Rightarrow> Some ((3, 4), mi, mi + length sq * 3 div 4)
           | None \<Rightarrow>
               (case indexOf cn (take (length sq div 2) sq) of
                  Some mi \<Rightarrow> Some ((1, 2), mi, mi + length sq div 2)
                | None \<Rightarrow> None)))"
proof -
  have a: "min (length sq) (length sq * 3 div 4) = length sq * 3 div 4" by arith
  have b: "min (length sq) (length sq div 2) = length sq div 2" by arith
  show ?thesis
    by (simp add: searchLengths_def searchLength_def Let_def a b split: option.splits)
qed

lemma sum_offsets:
  "es \<noteq> [] \<Longrightarrow> (\<Sum>e\<leftarrow>es. length (snd e) + 1) = length (join (map snd es)) + 1"
proof (induction es)
  case Nil
  then show ?case by simp
next
  case (Cons e es)
  then show ?case by (cases es) simp_all
qed

lemma markSpans_within:
  assumes "layer \<noteq> []" and "mi \<le> length (fullPageText layer)" and "mi < me"
  shows "0 < snd (markSpans 0 mi me (spanMap layer))"
proof -
  from assms(1) have ne: "spanMap layer \<noteq> []" by (simp add: spanMap_def)
  have "mi < 0 + (\<Sum>e\<leftarrow>spanMap layer. length (snd e) + 1)"
    using assms(2) unfolding sum_offsets [OF ne] fullPageText_def by simp
  with assms(3) show ?thesis by (intro markSpans_hit) simp_all
qed


section \<open>Blank pages and the text cache\<close>

lemma is_space_space: "is_space CHR '' ''"
  by (simp add: is_space_def)

lemma is_space_lower: "is_space (lowerChar c) = is_space c"
  by (auto simp add: lowerChar_def Let_def is_space_def)

lemma trimEnd_Nil_iff: "trimEnd s = [] \<longleftrightarrow> (\<forall>c\<in>set s. is_space c)"
  by (induction s) (auto simp: Let_def)

lemma trimEnd_last: "trimEnd s \<noteq> [] \<Longrightarrow> \<not> is_space (last (trimEnd s))"
  by (induction s) (auto simp: Let_def)

lemma trim_Nil_iff: "trim s = [] \<longleftrightarrow> (\<forall>c\<in>set s. is_space c)"
proof
  assume "trim s = []"
  then have all: "\<forall>c\<in>set (trimEnd s). is_space c"
    by (simp add: trim_def dropWhile_eq_Nil_conv)
  have "trimEnd s = []"
  proof (rule ccontr)
    assume ne: "trimEnd s \<noteq> []"
    then have "last (trimEnd s) \<in> set (trimEnd s)" by simp
    with all have "is_space (last (trimEnd s))" by blast
    with trimEnd_last [OF ne] show False by simp
  qed
  then show "\<forall>c\<in>set s. is_space c" by (simp add: trimEnd_Nil_iff)
next
  assume "\<forall>c\<in>set s. is_space c"
  then have "trimEnd s = []" by (simp add: trimEnd_Nil_iff)
  then show "trim s = []" by (simp add: trim_def)
qed

lemma collapseSpaces_all_space:
  assumes "\<forall>c\<in>set s. is_space c"
  shows "\<forall>c\<in>set (collapseSpaces s). is_space c"
proof (cases s)
  case Nil
  then show ?thesis by simp
next
  case (Cons c cs)
  with assms have c: "is_space c" and d: "dropWhile is_space cs = []" by simp_all
  have "collapseSpaces (c # cs) = CHR '' '' # collapseSpaces (dropWhile is_space cs)"
    using c by simp
  also have "\<dots> = [CHR '' '']" unfolding d by simp
  finally show ?thesis using Cons by (simp add: is_space_space)
qed

lemma normalizeText_blank: "\<forall>c\<in>set s. is_space c \<Longrightarrow> normalizeText s = []"
proof -
  assume "\<forall>c\<in>set s. is_space c"
  then have "\<forall>c\<in>set (toLowerCase s). is_space c"
    by (simp add: toLowerCase_def is_space_lower)
  then have "\<forall>c\<in>set (collapseSpaces (toLowerCase s)). is_space c"
    by (rule collapseSpaces_all_space)
  then have "\<forall>c\<in>set (punctToSpace (collapseSpaces (toLowerCase s))). is_space c"
    by (auto simp: punctToSpace_def is_space_space)
  then show ?thesis by (simp add: normalizeText_def trim_Nil_iff)
qed

lemma findMatch_empty: "findMatch rs [] sq = Some (r, mi, me) \<Longrightarrow> mi = 0 \<and> me = 0"
  by (induction rs) (auto simp: Let_def split: option.splits if_splits)

lemma highlightQuote_layer_blank:
  assumes "combinedNormalized layer = []"
  shows "\<not> fst (highlightQuote_layer layer q)"
proof -
  have cn: "combinedNormalized (clearHighlights layer) = []"
    using assms by (simp add: combinedNormalized_clear)
  show ?thesis
  proof (cases "findMatch searchLengths [] (normalizeText q)")
    case None
    then show ?thesis by (simp add: highlightQuote_layer_def Let_def cn)
  next
    case (Some m)
    obtain r mi me where m: "m = (r, mi, me)" by (cases m)
    with Some findMatch_empty have "mi = 0" "me = 0" by blast+
    with Some m show ?thesis
      by (simp add: highlightQuote_layer_def Let_def cn markSpans_past)
  qed
qed

lemma blank_combinedNormalized: "blank (Some layer) \<Longrightarrow> combinedNormalized layer = []"
  by (simp add: blank_def combinedNormalized_texts trim_Nil_iff normalizeText_blank)

lemma highlightQuote_blank:
  "refs p = Some h \<Longrightarrow> blank h \<Longrightarrow> \<not> fst (highlightQuote refs p q)"
  by (cases h) (simp_all add: highlightQuote_def Let_def highlightQuote_layer_blank blank_combinedNormalized)

lemma extractText_blank: "blank h \<Longrightarrow> extractText p h cache = (False, cache)"
  by (cases h) (simp_all add: extractText_def blank_def Let_def)

lemma onPageRender_bound: "snd (onPageRender st p later) \<le> 2"
  by (simp add: onPageRender_def Let_def split: option.splits)

lemma onPageRender_blank:
  "pageRefs st p = Some h \<Longrightarrow> blank h \<Longrightarrow> blank later
     \<Longrightarrow> onPageRender st p later = (st\<lparr>pageTextsRef := pageTextsRef st\<rparr>, 2)"
  by (simp add: onPageRender_def Let_def extractText_blank)

lemma getPageTexts_missing:
  "pageTextsRef st p = None \<Longrightarrow> 1 \<le> p \<Longrightarrow> p \<le> numPagesOr 0 (numPages st)
     \<Longrightarrow> (p, []) \<in> set (getPageTexts st)"
  by (auto simp: getPageTexts_def image_iff simp del: upt_Suc intro!: bexI [of _ p])

lemma forceTextExtraction_pageRefs:
  "pageRefs (forceTextExtraction st) = pageRefs st"
  by (simp add: forceTextExtraction_def)

lemma firstMatch_matches: "firstMatch st q = Some p \<Longrightarrow> matchesOn st q p"
  by (simp add: firstMatch_least)

lemma jumpTo_never_finds:
  assumes "\<forall>q. \<not> matchesOn st q p"
  shows "LogFound p \<notin> set (drop (length (effects st)) (effects (jumpTo st c)))"
proof (cases "falsy (quote c)")
  case True
  then show ?thesis
    by (auto simp: jumpTo_def scrollToFirst_def split: option.splits)
next
  case False
  then obtain q where q: "quote c = Str q" "q \<noteq> []"
    by (cases "quote c") (auto simp: falsy_def)
  from assms have "firstMatch st q \<noteq> Some p" using firstMatch_matches by blast
  then show ?thesis
    unfolding jumpTo_effects [OF q]
    by (auto simp: scrollToFirst_def split: option.splits)
qed


section \<open>What the marking loop computes\<close>

text \<open>
  Span \<open>i\<close> is marked exactly when the range that starts at the sum of
  \<^verbatim>\<open>normalized.length + 1\<close> over the spans before it, and is
  \<^verbatim>\<open>normalized.length + 1\<close> long, meets the match range; the marked spans are contiguous.
\<close>

lemma markSpans_length: "length (fst (markSpans pos mi me es)) = length es"
  by (induction es arbitrary: pos) (simp_all add: Let_def)

lemma markSpans_nth:
  "i < length es \<Longrightarrow>
   fst (markSpans pos mi me es) ! i =
     (if pos + (\<Sum>e\<leftarrow>take i es. length (snd e) + 1) < me \<and>
         mi < pos + (\<Sum>e\<leftarrow>take i es. length (snd e) + 1) + length (snd (es ! i)) + 1
      then (fst (es ! i))\<lparr>pdf_highlight := True\<rparr> else fst (es ! i))"
proof (induction es arbitrary: pos i)
  case Nil
  then show ?case by simp
next
  case (Cons e es)
  show ?case
  proof (cases i)
    case 0
    then show ?thesis by (simp add: Let_def)
  next
    case (Suc j)
    with Cons.prems have "j < length es" by simp
    from Cons.IH [OF this, of "pos + length (snd e) + 1"] Suc show ?thesis
      by (simp add: Let_def add.assoc)
  qed
qed

lemma offsets_mono:
  "i \<le> j \<Longrightarrow> (\<Sum>e\<leftarrow>take i es. length (snd e) + 1) \<le> (\<Sum>e\<leftarrow>take j (es :: ('a \<times> 'b list) list). length (snd e) + 1)"
proof -
  assume "i \<le> j"
  then have "take j es = take i es @ take (j - i) (drop i es)"
    by (metis le_add_diff_inverse take_add)
  then show ?thesis by simp
qed

lemma offsets_step:
  "i < length es \<Longrightarrow>
   (\<Sum>e\<leftarrow>take (Suc i) es. length (snd e) + 1) =
   (\<Sum>e\<leftarrow>take i (es :: ('a \<times> 'b list) list). length (snd e) + 1) + length (snd (es ! i)) + 1"
  by (simp add: take_Suc_conv_app_nth)

lemma markSpans_contiguous:
  assumes "i < j" and "j < k" and "k < length es"
    and "\<forall>e\<in>set es. \<not> pdf_highlight (fst e)"
    and "pdf_highlight (fst (markSpans pos mi me es) ! i)"
    and "pdf_highlight (fst (markSpans pos mi me es) ! k)"
  shows "pdf_highlight (fst (markSpans pos mi me es) ! j)"
proof -
  let ?off = "\<lambda>n. \<Sum>e\<leftarrow>take n es. length (snd e) + 1"
  from assms have i: "i < length es" and j: "j < length es" by simp_all
  have ni: "\<not> pdf_highlight (fst (es ! i))" and nk: "\<not> pdf_highlight (fst (es ! k))"
    using assms(3,4) i by simp_all
  from assms(5) ni have mi: "mi < pos + ?off i + length (snd (es ! i)) + 1"
    unfolding markSpans_nth [OF i] by (auto split: if_splits)
  from assms(6) nk have me: "pos + ?off k < me"
    unfolding markSpans_nth [OF assms(3)] by (auto split: if_splits)
  have "?off (Suc i) \<le> ?off j" using assms(1) by (intro offsets_mono) simp
  with mi have a: "mi < pos + ?off j + length (snd (es ! j)) + 1"
    unfolding offsets_step [OF i] by simp
  have "?off j \<le> ?off k" using assms(2) by (intro offsets_mono) simp
  with me have b: "pos + ?off j < me" by simp
  from a b show ?thesis unfolding markSpans_nth [OF j] by simp
qed

section \<open>The guarded normalizers are idempotent\<close>

text \<open>
  \<^verbatim>\<open>norm\<close> and ChatPane's \<^verbatim>\<open>normalize\<close> give the same string when applied to their own
  result: both leave a string with single spaces, trimmed and in lower case, and
  \<^verbatim>\<open>normalize\<close> removes punctuation before it collapses white space.
\<close>

lemma lowerChar_idem: "lowerChar (lowerChar c) = lowerChar c"
  by (simp add: lowerChar_def Let_def)

lemma lowerChar_space: "is_space c \<Longrightarrow> lowerChar c = c"
  by (auto simp: lowerChar_def Let_def is_space_def)

lemma is_word_lower: "is_word (lowerChar c) = is_word c"
  by (auto simp add: lowerChar_def Let_def is_word_def)

lemma collapseSpaces_head:
  "s = [] \<or> \<not> is_space (hd s) \<Longrightarrow> collapseSpaces s = [] \<or> \<not> is_space (hd (collapseSpaces s))"
  by (cases s) auto

lemma spaced_collapseSpaces: "spaced (collapseSpaces s)"
proof (induction s rule: collapseSpaces.induct)
  case 1
  then show ?case by simp
next
  case (2 c cs)
  show ?case
  proof (cases "is_space c")
    case True
    have "dropWhile is_space cs = [] \<or> \<not> is_space (hd (dropWhile is_space cs))"
      using hd_dropWhile [of is_space cs] by blast
    then have "collapseSpaces (dropWhile is_space cs) = [] \<or>
               \<not> is_space (hd (collapseSpaces (dropWhile is_space cs)))"
      by (rule collapseSpaces_head)
    with True 2 show ?thesis by simp
  next
    case False
    with 2 show ?thesis by simp
  qed
qed

lemma collapseSpaces_spaced: "spaced s \<Longrightarrow> collapseSpaces s = s"
proof (induction s rule: collapseSpaces.induct)
  case 1
  then show ?case by simp
next
  case (2 c cs)
  show ?case
  proof (cases "is_space c")
    case True
    with "2.prems" have c: "c = CHR '' ''" and h: "cs = [] \<or> \<not> is_space (hd cs)" and s: "spaced cs"
      by simp_all
    from h have d: "dropWhile is_space cs = cs" by (cases cs) auto
    from "2.IH"(1) [OF True] s have "collapseSpaces (dropWhile is_space cs) = cs"
      unfolding d by simp
    with True c show ?thesis by simp
  next
    case False
    with 2 show ?thesis by simp
  qed
qed

lemma spaced_dropWhile: "spaced s \<Longrightarrow> spaced (dropWhile P s)"
  by (induction s) auto

lemma trimEnd_hd: "trimEnd s \<noteq> [] \<Longrightarrow> hd (trimEnd s) = hd s"
  by (cases s) (auto simp: Let_def split: if_splits)

lemma spaced_trimEnd: "spaced s \<Longrightarrow> spaced (trimEnd s)"
proof (induction s)
  case Nil
  then show ?case by simp
next
  case (Cons c cs)
  then have sp: "spaced (trimEnd cs)" by simp
  show ?case
  proof (cases "trimEnd cs = []")
    case True
    then show ?thesis by (simp add: Let_def)
  next
    case False
    then have "cs \<noteq> []" by auto
    with Cons.prems trimEnd_hd [OF False] False sp show ?thesis
      by (auto simp: Let_def)
  qed
qed

lemma spaced_trim: "spaced s \<Longrightarrow> spaced (trim s)"
  by (simp add: trim_def spaced_dropWhile spaced_trimEnd)

lemma spaced_lower: "spaced s \<Longrightarrow> spaced (map lowerChar s)"
proof (induction s)
  case Nil
  then show ?case by simp
next
  case (Cons c cs)
  then show ?case
    by (cases cs) (auto simp: is_space_lower lowerChar_space)
qed

lemma trimEnd_fixed: "s = [] \<or> \<not> is_space (last s) \<Longrightarrow> trimEnd s = s"
proof (induction s)
  case Nil
  then show ?case by simp
next
  case (Cons c cs)
  show ?case
  proof (cases "cs = []")
    case True
    with Cons.prems show ?thesis by (simp add: Let_def)
  next
    case False
    with Cons have "trimEnd cs = cs" by simp
    with False show ?thesis by (simp add: Let_def)
  qed
qed

lemma last_dropWhile_same: "dropWhile P s \<noteq> [] \<Longrightarrow> last (dropWhile P s) = last s"
  by (induction s) (auto split: if_splits)

lemma trim_last: "trim s \<noteq> [] \<Longrightarrow> \<not> is_space (last (trim s))"
proof -
  assume ne: "trim s \<noteq> []"
  then have t: "trimEnd s \<noteq> []" by (auto simp: trim_def)
  have "last (dropWhile is_space (trimEnd s)) = last (trimEnd s)"
    using ne unfolding trim_def by (rule last_dropWhile_same)
  with trimEnd_last [OF t] show ?thesis by (simp add: trim_def)
qed

lemma trim_idem: "trim (trim s) = trim s"
proof -
  have "trimEnd (trim s) = trim s"
    by (rule trimEnd_fixed) (use trim_last in blast)
  moreover have "dropWhile is_space (trim s) = trim s"
    by (simp add: trim_def dropWhile_idem)
  ultimately show ?thesis by (simp add: trim_def [of "trim s"])
qed

lemma trimEnd_map_lower: "trimEnd (map lowerChar s) = map lowerChar (trimEnd s)"
  by (induction s) (simp_all add: Let_def is_space_lower)

lemma trim_lower: "trim (toLowerCase s) = toLowerCase (trim s)"
  by (simp add: trim_def toLowerCase_def trimEnd_map_lower dropWhile_map comp_def is_space_lower)

lemma toLowerCase_idem: "toLowerCase (toLowerCase s) = toLowerCase s"
  by (simp add: toLowerCase_def lowerChar_idem)

lemma norm_idempotent: "norm (Str (norm v)) = norm v"
proof -
  let ?t = "trim (collapseSpaces (orEmpty v))"
  have sp: "spaced (toLowerCase ?t)"
    unfolding toLowerCase_def by (intro spaced_lower spaced_trim spaced_collapseSpaces)
  have "norm (Str (norm v)) = toLowerCase (trim (collapseSpaces (toLowerCase ?t)))"
    by (simp add: norm_def orEmpty_def)
  also have "\<dots> = toLowerCase (trim (toLowerCase ?t))"
    by (simp only: collapseSpaces_spaced [OF sp])
  also have "\<dots> = toLowerCase (toLowerCase (trim ?t))"
    by (simp only: trim_lower)
  also have "\<dots> = toLowerCase ?t"
    by (simp only: toLowerCase_idem trim_idem)
  finally show ?thesis by (simp add: norm_def)
qed

lemma set_collapseSpaces: "set (collapseSpaces s) \<subseteq> insert CHR '' '' (set s)"
proof (induction s rule: collapseSpaces.induct)
  case 1
  then show ?case by simp
next
  case (2 c cs)
  show ?case
  proof (cases "is_space c")
    case True
    with 2 have "set (collapseSpaces (dropWhile is_space cs)) \<subseteq> insert CHR '' '' (set (dropWhile is_space cs))"
      by simp
    moreover have "set (dropWhile is_space cs) \<subseteq> set cs" by (auto dest: set_dropWhileD)
    ultimately show ?thesis using True by auto
  next
    case False
    with 2 show ?thesis by auto
  qed
qed

lemma set_trimEnd: "set (trimEnd s) \<subseteq> set s"
  by (induction s) (auto simp: Let_def)

lemma set_trim: "set (trim s) \<subseteq> set s"
  using set_trimEnd [of s] by (auto simp: trim_def dest: set_dropWhileD)

lemma normalize_chat_chars:
  "c \<in> set (normalize_chat v) \<Longrightarrow> lowerChar c = c \<and> (is_word c \<or> is_space c)"
proof -
  assume "c \<in> set (normalize_chat v)"
  then have "c \<in> set (collapseSpaces (stripPunct (toLowerCase (orEmpty v))))"
    using set_trim unfolding normalize_chat_def by blast
  then have "c = CHR '' '' \<or> c \<in> set (stripPunct (toLowerCase (orEmpty v)))"
    using set_collapseSpaces by blast
  then show ?thesis
  proof
    assume "c = CHR '' ''"
    then show ?thesis by (simp add: is_space_space lowerChar_space)
  next
    assume "c \<in> set (stripPunct (toLowerCase (orEmpty v)))"
    then obtain d where "c = lowerChar d" "is_word c \<or> is_space c"
      by (auto simp: stripPunct_def toLowerCase_def)
    then show ?thesis by (simp add: lowerChar_idem)
  qed
qed

lemma normalize_chat_idempotent: "normalize_chat (Str (normalize_chat v)) = normalize_chat v"
proof -
  let ?u = "normalize_chat v"
  have sp: "spaced ?u"
    unfolding normalize_chat_def by (intro spaced_trim spaced_collapseSpaces)
  have lo: "toLowerCase ?u = ?u"
    unfolding toLowerCase_def by (rule map_idI) (simp add: normalize_chat_chars)
  have st: "stripPunct ?u = ?u"
    unfolding stripPunct_def by (rule filter_True) (use normalize_chat_chars in blast)
  have tr: "trim ?u = ?u"
    unfolding normalize_chat_def by (rule trim_idem)
  have "normalize_chat (Str ?u) = trim (collapseSpaces (stripPunct (toLowerCase ?u)))"
    by (simp add: normalize_chat_def [of "Str ?u"] orEmpty_def)
  also have "\<dots> = trim (collapseSpaces ?u)" by (simp only: lo st)
  also have "\<dots> = ?u" by (simp only: collapseSpaces_spaced [OF sp] tr)
  finally show ?thesis .
qed

section \<open>Hits of the search and success of highlightQuote\<close>











section \<open>The quote is a string wherever it is used\<close>

text \<open>
  On its own \<^verbatim>\<open>normalizeText\<close> throws on undefined and null; behind the test of \<^verbatim>\<open>jumpTo\<close>
  no such value reaches \<^verbatim>\<open>highlightQuote\<close>, and the error-tracking functions return what the
  functions on strings compute.
\<close>

lemma normalizeText_val_unguarded:
  "normalizeText_val Undefined = Inl TypeError \<and> normalizeText_val Null = Inl TypeError"
  by (simp add: normalizeText_val_def)





section \<open>The cache under forceTextExtraction\<close>

lemma fold_forceOne:
  "fold (forceOne refs) ps cache p =
     (if p \<in> set ps
      then (case refs p of Some (Some spans) \<Rightarrow> Some (join (map textContent spans)) | _ \<Rightarrow> cache p)
      else cache p)"
proof (induction ps arbitrary: cache)
  case Nil
  then show ?case by simp
next
  case (Cons a ps)
  show ?case
    unfolding fold_simps Cons.IH
    by (auto simp: forceOne_def split: option.splits)
qed

lemma forceTextExtraction_entry:
  assumes "1 \<le> p" and "p \<le> numPagesOr 0 (numPages st)"
  shows "pageTextsRef (forceTextExtraction st) p =
     (case pageRefs st p of Some (Some spans) \<Rightarrow> Some (join (map textContent spans))
      | _ \<Rightarrow> pageTextsRef st p)"
proof -
  from assms have "p \<in> set [1 ..< Suc (numPagesOr 0 (numPages st))]" by (simp del: upt_Suc)
  then show ?thesis
    unfolding forceTextExtraction_def by (simp add: fold_forceOne del: upt_Suc)
qed

lemma matchesOn_cache: "matchesOn (st\<lparr>pageTextsRef := cache\<rparr>) q p = matchesOn st q p"
  by (simp add: matchesOn_def)

lemma matchesOn_force: "matchesOn (forceTextExtraction st) q p = matchesOn st q p"
  by (simp add: matchesOn_def forceTextExtraction_pageRefs)

lemma getPageTexts_entry:
  "1 \<le> p \<Longrightarrow> p \<le> numPagesOr 0 (numPages st)
     \<Longrightarrow> (p, case pageTextsRef st p of None \<Rightarrow> [] | Some t \<Rightarrow> t) \<in> set (getPageTexts st)"
  by (auto simp: getPageTexts_def image_iff simp del: upt_Suc intro!: bexI [of _ p])


section \<open>Normalization\<close>

text \<open>
  C3. \<^verbatim>\<open>normalizeText\<close>, the normalizer of the quote search, is not idempotent: it collapses
  white space before it turns punctuation into spaces, so the quote \<^verbatim>\<open>a. b\<close> becomes
  \<^verbatim>\<open>a\<close>, two spaces, \<^verbatim>\<open>b\<close>, and a second pass gives \<^verbatim>\<open>a b\<close>. (The other two
  normalizers are idempotent, see above.)
\<close>

theorem normalizeText_twice_differs:
  "normalizeText ''a. b'' = ''a  b'' \<and>
   normalizeText (normalizeText ''a. b'') = ''a b'' \<and>
   normalizeText (normalizeText ''a. b'') \<noteq> normalizeText ''a. b''"
  by code_simp



section \<open>Highlights across pages\<close>

text \<open>
  C2. A two-page document, \<^verbatim>\<open>alpha\<close> on page 1 and \<^verbatim>\<open>beta\<close> on page 2. After a jump to
  \<^verbatim>\<open>beta\<close> and then a jump to \<^verbatim>\<open>alpha\<close>, both pages carry a highlighted span: the second
  search stops on page 1 and never clears page 2.
\<close>

theorem highlight_left_on_other_page:
  "highlightedOn (pageRefs (jumpTo (jumpTo (document [[''alpha''], [''beta'']])
        (citing None (Str ''beta''))) (citing None (Str ''alpha'')))) 1
     = [(plainSpan ''alpha'')\<lparr>pdf_highlight := True\<rparr>] \<and>
   highlightedOn (pageRefs (jumpTo (jumpTo (document [[''alpha''], [''beta'']])
        (citing None (Str ''beta''))) (citing None (Str ''alpha'')))) 2
     = [(plainSpan ''beta'')\<lparr>pdf_highlight := True\<rparr>]"
  by code_simp

section \<open>From the match range to the fragments\<close>

text \<open>
  C8. Five fragments \<^verbatim>\<open>a.\<close>, \<^verbatim>\<open>b.\<close>, \<^verbatim>\<open>c.\<close>, \<^verbatim>\<open>d\<close>, \<^verbatim>\<open>e\<close> and the quote \<^verbatim>\<open>d\<close>. The match
  is at positions 9 to 10 of the combined text, inside the fourth fragment, which is the one
  the specification's offsets select; the code's running offset adds the length of each
  fragment's own normalized text (see \<open>markSpans_nth\<close>), while the match position counts
  the characters of the normalized join of the raw texts, and the fifth fragment is marked
  instead.
\<close>

theorem marks_fragment_after_the_match:
  "findMatch searchLengths
     (combinedNormalized (map plainSpan [''a.'', ''b.'', ''c.'', ''d'', ''e''])) (normalizeText ''d'')
     = Some ((1, 1), 9, 10) \<and>
   spec_overlapping 0 0 9 10 [''a.'', ''b.'', ''c.'', ''d'', ''e''] = [3] \<and>
   fst (highlightQuote_layer (map plainSpan [''a.'', ''b.'', ''c.'', ''d'', ''e'']) ''d'') \<and>
   map pdf_highlight
     (snd (highlightQuote_layer (map plainSpan [''a.'', ''b.'', ''c.'', ''d'', ''e'']) ''d''))
     = [False, False, False, False, True]"
  by code_simp

section \<open>Traversal order\<close>




section \<open>No match on any page\<close>

text \<open>
  C6. A call of \<^verbatim>\<open>jumpTo\<close> with a non-empty quote for which \<^verbatim>\<open>highlightQuote\<close> succeeds on
  no page logs that the quote was not found, scrolls to page 1 (when that page is mounted)
  and leaves no span with \<^verbatim>\<open>data-pdf-highlight\<close> on any page of the document, whatever was
  highlighted before. The function is total: nothing is raised.
\<close>

theorem jumpTo_not_found:
  assumes "quote c = Str q" and "q \<noteq> []"
    and "\<forall>p. 1 \<le> p \<and> p \<le> lastPage st \<longrightarrow> \<not> matchesOn st q p"
  shows "effects (jumpTo st c) = effects st @ LogNotFound # scrollToFirst (pageRefs st) \<and>
         (pageRefs st 1 \<noteq> None \<longrightarrow> scrollToFirst (pageRefs st) = [ScrollIntoView 1]) \<and>
         (\<forall>p. 1 \<le> p \<and> p \<le> lastPage st \<longrightarrow> highlightedOn (pageRefs (jumpTo st c)) p = [])"
proof -
  let ?ps = "[1 ..< Suc (lastPage st)]"
  from assms(3) have none: "firstMatch st q = None" by (simp add: firstMatch_None)
  have f: "fst (searchAllPages ?ps q (pageRefs st)) = None"
    unfolding search_fst by (rule none)
  have "highlightedOn (pageRefs (jumpTo st c)) p = []" if "1 \<le> p" "p \<le> lastPage st" for p
  proof -
    from that have "p \<in> set ?ps" by (simp del: upt_Suc)
    from searchAllPages_none_clean [OF distinct_upt f this] show ?thesis
      by (simp add: jumpTo_pageRefs [OF assms(1,2)])
  qed
  moreover have "effects (jumpTo st c) = effects st @ LogNotFound # scrollToFirst (pageRefs st)"
    using jumpTo_effects [OF assms(1,2), of st] none by simp
  moreover have "pageRefs st 1 \<noteq> None \<longrightarrow> scrollToFirst (pageRefs st) = [ScrollIntoView 1]"
    by (auto simp: scrollToFirst_def)
  ultimately show ?thesis by blast
qed

theorem jumpTo_not_found_witness:
  "highlightedOn (pageRefs (jumpTo (document [[''alpha''], [''beta'']]) (citing None (Str ''beta'')))) 2 \<noteq> [] \<and>
   effects (jumpTo (jumpTo (document [[''alpha''], [''beta'']]) (citing None (Str ''beta'')))
      (citing (Some 2) (Str ''nonexistent clause xyz123''))) =
     [LogFound 2, RingOn 2, ScrollIntoView 2, RingOff 2, LogNotFound, ScrollIntoView 1] \<and>
   highlightedOn (pageRefs (jumpTo (jumpTo (document [[''alpha''], [''beta'']]) (citing None (Str ''beta'')))
      (citing (Some 2) (Str ''nonexistent clause xyz123'')))) 1 = [] \<and>
   highlightedOn (pageRefs (jumpTo (jumpTo (document [[''alpha''], [''beta'']]) (citing None (Str ''beta'')))
      (citing (Some 2) (Str ''nonexistent clause xyz123'')))) 2 = []"
proof -
  let ?st = "jumpTo (document [[''alpha''], [''beta'']]) (citing None (Str ''beta''))"
  let ?c = "citing (Some 2) (Str ''nonexistent clause xyz123'')"
  have h1: "quote ?c = Str ''nonexistent clause xyz123''" by (simp add: citing_def)
  have h2: "''nonexistent clause xyz123'' \<noteq> []" by simp
  have l: "lastPage ?st = 2" by code_simp
  have n: "\<not> matchesOn ?st ''nonexistent clause xyz123'' 1 \<and>
           \<not> matchesOn ?st ''nonexistent clause xyz123'' 2"
    by code_simp
  have h3: "\<forall>p. 1 \<le> p \<and> p \<le> lastPage ?st \<longrightarrow> \<not> matchesOn ?st ''nonexistent clause xyz123'' p"
  proof (intro allI impI)
    fix p assume "1 \<le> p \<and> p \<le> lastPage ?st"
    with l have "p = 1 \<or> p = 2" by arith
    with n show "\<not> matchesOn ?st ''nonexistent clause xyz123'' p" by auto
  qed
  note T = jumpTo_not_found [OF h1 h2 h3]
  have before: "highlightedOn (pageRefs ?st) 2 \<noteq> []" by code_simp
  have e: "effects ?st = [LogFound 2, RingOn 2, ScrollIntoView 2, RingOff 2]" by code_simp
  have s: "scrollToFirst (pageRefs ?st) = [ScrollIntoView 1]" by code_simp
  from T [THEN conjunct1] have "effects (jumpTo ?st ?c) =
      [LogFound 2, RingOn 2, ScrollIntoView 2, RingOff 2, LogNotFound, ScrollIntoView 1]"
    by (simp add: e s)
  moreover from T [THEN conjunct2, THEN conjunct2] l
  have "highlightedOn (pageRefs (jumpTo ?st ?c)) 1 = []" "highlightedOn (pageRefs (jumpTo ?st ?c)) 2 = []"
    by simp_all
  ultimately show ?thesis using before by simp
qed

section \<open>Prefix ratios behind the gate\<close>

text \<open>
  C7, as the claim has it, fails: a page with the single fragment \<^verbatim>\<open>abcdefghij\<close> and the
  20-character quote \<^verbatim>\<open>abcdefghijklmnopqrst\<close>. The combined text lacks the quote and
  contains its first half, yet the page is rejected, because the gate asks for the first 15
  characters.
\<close>

theorem half_prefix_present_but_rejected:
  "\<not> includesStr (combinedNormalized [plainSpan ''abcdefghij''])
        (normalizeText ''abcdefghijklmnopqrst'') \<and>
   includesStr (combinedNormalized [plainSpan ''abcdefghij''])
     (take (length (normalizeText ''abcdefghijklmnopqrst'') div 2)
        (normalizeText ''abcdefghijklmnopqrst'')) \<and>
   \<not> fst (highlightQuote_layer [plainSpan ''abcdefghij''] ''abcdefghijklmnopqrst'')"
  by code_simp

text \<open>
  C7, amended. A page that fails the gate is rejected whatever prefixes it contains. On a
  page with spans that passes the gate, whose combined normalized text lacks the whole
  normalized quote and contains its first half (rounded down), the search hits at the 75%
  prefix when that is present and at the 50% prefix otherwise, at the first occurrence of
  that prefix; the call succeeds exactly when the hit marks a span, which it does whenever
  the prefix is not empty and the hit starts no later than the end of the joined
  per-span texts.
\<close>

theorem ratio_tiers_behind_gate:
  assumes "sq = normalizeText q" and "cn = combinedNormalized layer"
    and "tier = (if includesStr cn (take (length sq * 3 div 4) sq) then (3, 4) else (1, 2))"
  shows "(\<not> gate layer sq \<longrightarrow> highlightQuote_layer layer q = (False, clearHighlights layer)) \<and>
         (layer \<noteq> [] \<and> gate layer sq \<and> \<not> includesStr cn sq \<and> includesStr cn (take (length sq div 2) sq)
            \<longrightarrow> (\<exists>mi. indexOf cn (take (searchLength sq tier) sq) = Some mi \<and>
                   findMatch searchLengths cn sq = Some (tier, mi, mi + searchLength sq tier) \<and>
                   fst (highlightQuote_layer layer q) =
                     (0 < snd (markSpans 0 mi (mi + searchLength sq tier) (spanMap layer))) \<and>
                   (mi \<le> length (fullPageText layer) \<and> 0 < searchLength sq tier
                      \<longrightarrow> fst (highlightQuote_layer layer q))))"
proof (intro conjI impI)
  assume "\<not> gate layer sq"
  then show "highlightQuote_layer layer q = (False, clearHighlights layer)"
    unfolding assms(1) by (rule highlightQuote_layer_gate)
next
  assume a: "layer \<noteq> [] \<and> gate layer sq \<and> \<not> includesStr cn sq \<and> includesStr cn (take (length sq div 2) sq)"
  then have full: "indexOf cn sq = None" by (simp add: includesStr_def)
  have "\<exists>mi. indexOf cn (take (searchLength sq tier) sq) = Some mi \<and>
          findMatch searchLengths cn sq = Some (tier, mi, mi + searchLength sq tier)"
  proof (cases "includesStr cn (take (length sq * 3 div 4) sq)")
    case True
    then obtain mi where "indexOf cn (take (length sq * 3 div 4) sq) = Some mi"
      by (auto simp: includesStr_def)
    with True full show ?thesis
      by (simp add: findMatch_tiers assms(3) searchLength_def)
  next
    case False
    then have "indexOf cn (take (length sq * 3 div 4) sq) = None" by (simp add: includesStr_def)
    moreover from a obtain mi where "indexOf cn (take (length sq div 2) sq) = Some mi"
      by (auto simp: includesStr_def)
    ultimately show ?thesis using False full
      by (simp add: findMatch_tiers assms(3) searchLength_def)
  qed
  then obtain mi where mi: "indexOf cn (take (searchLength sq tier) sq) = Some mi"
    and fm: "findMatch searchLengths cn sq = Some (tier, mi, mi + searchLength sq tier)"
    by blast
  from a have l: "layer \<noteq> []" and g: "gate layer (normalizeText q)" by (simp_all add: assms(1))
  have res: "fst (highlightQuote_layer layer q) =
      (0 < snd (markSpans 0 mi (mi + searchLength sq tier) (spanMap layer)))"
    using highlightQuote_layer_hit [OF l g] fm unfolding assms(1,2) by simp
  have ok: "mi \<le> length (fullPageText layer) \<and> 0 < searchLength sq tier
      \<longrightarrow> fst (highlightQuote_layer layer q)"
  proof
    assume "mi \<le> length (fullPageText layer) \<and> 0 < searchLength sq tier"
    then have "0 < snd (markSpans 0 mi (mi + searchLength sq tier) (spanMap layer))"
      by (intro markSpans_within [OF l]) simp_all
    then show "fst (highlightQuote_layer layer q)" by (simp only: res)
  qed
  show "\<exists>mi. indexOf cn (take (searchLength sq tier) sq) = Some mi \<and>
      findMatch searchLengths cn sq = Some (tier, mi, mi + searchLength sq tier) \<and>
      fst (highlightQuote_layer layer q) =
        (0 < snd (markSpans 0 mi (mi + searchLength sq tier) (spanMap layer))) \<and>
      (mi \<le> length (fullPageText layer) \<and> 0 < searchLength sq tier
         \<longrightarrow> fst (highlightQuote_layer layer q))"
    by (rule exI [of _ mi]) (intro conjI mi fm res ok)
qed

theorem ratio_tiers_behind_gate_witness:
  "gate [plainSpan ''abcdefghijklmnop''] (normalizeText ''abcdefghijklmnopqrstuvwxyz'') \<and>
   \<not> includesStr (combinedNormalized [plainSpan ''abcdefghijklmnop''])
        (normalizeText ''abcdefghijklmnopqrstuvwxyz'') \<and>
   findMatch searchLengths (combinedNormalized [plainSpan ''abcdefghijklmnop''])
     (normalizeText ''abcdefghijklmnopqrstuvwxyz'') = Some ((1, 2), 0, 13) \<and>
   fst (highlightQuote_layer [plainSpan ''abcdefghijklmnop''] ''abcdefghijklmnopqrstuvwxyz'')"
proof -
  let ?layer = "[plainSpan ''abcdefghijklmnop'']"
  let ?q = "''abcdefghijklmnopqrstuvwxyz''"
  let ?sq = "normalizeText ?q"
  let ?cn = "combinedNormalized ?layer"
  have t: "(1 :: nat, 2 :: nat) =
      (if includesStr ?cn (take (length ?sq * 3 div 4) ?sq) then (3, 4) else (1, 2))"
    by code_simp
  have h: "?layer \<noteq> [] \<and> gate ?layer ?sq \<and> \<not> includesStr ?cn ?sq \<and>
           includesStr ?cn (take (length ?sq div 2) ?sq)"
    by code_simp
  from ratio_tiers_behind_gate [OF refl refl t, THEN conjunct2] h
  obtain mi where mi: "indexOf ?cn (take (searchLength ?sq (1, 2)) ?sq) = Some mi"
    and fm: "findMatch searchLengths ?cn ?sq = Some ((1, 2), mi, mi + searchLength ?sq (1, 2))"
    and ok: "mi \<le> length (fullPageText ?layer) \<and> 0 < searchLength ?sq (1, 2)
               \<longrightarrow> fst (highlightQuote_layer ?layer ?q)"
    by blast
  have i: "indexOf ?cn (take (searchLength ?sq (1, 2)) ?sq) = Some 0" by code_simp
  with mi have mi0: "mi = 0" by simp
  have len: "searchLength ?sq (1, 2) = 13" by code_simp
  from fm have "findMatch searchLengths ?cn ?sq = Some ((1, 2), 0, 13)"
    unfolding mi0 len by simp
  moreover from ok have "fst (highlightQuote_layer ?layer ?q)"
    unfolding mi0 len by simp
  ultimately show ?thesis using h by simp
qed

section \<open>The gate string and the search string\<close>

text \<open>
  C10. A page that fails the gate gives \<^verbatim>\<open>false\<close> with its highlights cleared and nothing
  marked, whatever the ratio search would find. The gate looks in the join of the texts
  normalized span by span, the ratio search in the normalization of the joined raw texts.
  The two differ on the page \<^verbatim>\<open>foo.\<close>, \<^verbatim>\<open>bar\<close>: for the quote \<^verbatim>\<open>foo. bar\<close> the combined text
  contains the 75% and the 50% prefix (and the whole quote), and the gate rejects the page.
\<close>

theorem gate_rejects_before_search:
  "(\<not> gate layer (normalizeText q)
      \<longrightarrow> \<not> fst (highlightQuote_layer layer q) \<and>
          snd (highlightQuote_layer layer q) = clearHighlights layer) \<and>
   gate layer (normalizeText q) =
     includesStr (join (map normalizeText (map textContent layer)))
       (take (min 15 (length (normalizeText q))) (normalizeText q)) \<and>
   combinedNormalized layer = normalizeText (join (map textContent layer)) \<and>
   fullPageText (map plainSpan [''foo.'', ''bar'']) = ''foo bar'' \<and>
   combinedNormalized (map plainSpan [''foo.'', ''bar'']) = ''foo  bar'' \<and>
   normalizeText ''foo. bar'' = ''foo  bar'' \<and>
   includesStr (combinedNormalized (map plainSpan [''foo.'', ''bar'']))
     (take (length (normalizeText ''foo. bar'') * 3 div 4) (normalizeText ''foo. bar'')) \<and>
   includesStr (combinedNormalized (map plainSpan [''foo.'', ''bar'']))
     (take (length (normalizeText ''foo. bar'') div 2) (normalizeText ''foo. bar'')) \<and>
   \<not> gate (map plainSpan [''foo.'', ''bar'']) (normalizeText ''foo. bar'') \<and>
   \<not> fst (highlightQuote_layer (map plainSpan [''foo.'', ''bar'']) ''foo. bar'')"
proof -
  have a: "\<not> gate layer (normalizeText q)
      \<longrightarrow> \<not> fst (highlightQuote_layer layer q) \<and>
          snd (highlightQuote_layer layer q) = clearHighlights layer"
    by (simp add: highlightQuote_layer_gate)
  have b: "gate layer (normalizeText q) =
     includesStr (join (map normalizeText (map textContent layer)))
       (take (min 15 (length (normalizeText q))) (normalizeText q))"
    by (simp add: gate_def fullPageText_texts)
  have c: "combinedNormalized layer = normalizeText (join (map textContent layer))"
    by (rule combinedNormalized_texts)
  have d: "fullPageText (map plainSpan [''foo.'', ''bar'']) = ''foo bar'' \<and>
   combinedNormalized (map plainSpan [''foo.'', ''bar'']) = ''foo  bar'' \<and>
   normalizeText ''foo. bar'' = ''foo  bar'' \<and>
   includesStr (combinedNormalized (map plainSpan [''foo.'', ''bar'']))
     (take (length (normalizeText ''foo. bar'') * 3 div 4) (normalizeText ''foo. bar'')) \<and>
   includesStr (combinedNormalized (map plainSpan [''foo.'', ''bar'']))
     (take (length (normalizeText ''foo. bar'') div 2) (normalizeText ''foo. bar'')) \<and>
   \<not> gate (map plainSpan [''foo.'', ''bar'']) (normalizeText ''foo. bar'') \<and>
   \<not> fst (highlightQuote_layer (map plainSpan [''foo.'', ''bar'']) ''foo. bar'')"
    by code_simp
  show ?thesis by (rule conjI [OF a conjI [OF b conjI [OF c d]]])
qed

theorem gate_rejects_before_search_witness:
  "\<not> gate [plainSpan ''Termination.'', plainSpan ''Either party may end''] (normalizeText ''Termination. Either party'') \<and>
   includesStr (combinedNormalized [plainSpan ''Termination.'', plainSpan ''Either party may end''])
     (normalizeText ''Termination. Either party'') \<and>
   highlightQuote_layer [plainSpan ''Termination.'', plainSpan ''Either party may end''] ''Termination. Either party''
     = (False, [plainSpan ''Termination.'', plainSpan ''Either party may end''])"
proof -
  let ?layer = "[plainSpan ''Termination.'', plainSpan ''Either party may end'']"
  let ?q = "''Termination. Either party''"
  have g: "\<not> gate ?layer (normalizeText ?q)" by code_simp
  have i: "includesStr (combinedNormalized ?layer) (normalizeText ?q)" by code_simp
  have c: "clearHighlights ?layer = ?layer" by code_simp
  from gate_rejects_before_search [of ?layer ?q, THEN conjunct1] g
  have "\<not> fst (highlightQuote_layer ?layer ?q) \<and> snd (highlightQuote_layer ?layer ?q) = ?layer"
    unfolding c by (rule mp)
  then have "highlightQuote_layer ?layer ?q = (False, ?layer)"
    by (simp add: prod_eq_iff)
  with g i show ?thesis by simp
qed

section \<open>Pages whose text never arrives\<close>

text \<open>
  C9, as the claim has it, fails. A first document stores a text for page 1; a second
  document in the same component has a blank page 1. Both extraction attempts on it fail,
  and \<^verbatim>\<open>getPageTexts\<close> lists page 1 with the text of the first document, not with the empty
  string.
\<close>

theorem stale_text_listed_for_blank_page:
  "pageTextsRef (fst (onPageRender (document [[''first upload'']]) 1 None)) 1 = Some ''first upload'' \<and>
   pageRefs (replaceDocument (fst (onPageRender (document [[''first upload'']]) 1 None)) [['' '']]) 1
     = Some (Some [plainSpan '' '']) \<and>
   blank (Some [plainSpan '' '']) \<and>
   snd (onPageRender
     (replaceDocument (fst (onPageRender (document [[''first upload'']]) 1 None)) [['' '']])
     1 (Some [plainSpan '' ''])) = 2 \<and>
   getPageTexts (fst (onPageRender
     (replaceDocument (fst (onPageRender (document [[''first upload'']]) 1 None)) [['' '']])
     1 (Some [plainSpan '' '']))) = [(1, ''first upload'')]"
  by code_simp

text \<open>
  C9, amended. \<^verbatim>\<open>onPageRender\<close> makes at most two extraction attempts, the second one retry
  after the fixed delay. For a mounted page of the document whose content is blank at both
  attempts, both are made and fail and the cache is left as it was: \<^verbatim>\<open>getPageTexts\<close> lists
  the page with the empty string when the cache holds nothing for it, and with the stored
  text otherwise. \<^verbatim>\<open>forceTextExtraction\<close> then overwrites the entry with the joined text the
  page has (for a page with a text layer). Matching does not read the cache: it is the
  same for every cache and before and after \<^verbatim>\<open>forceTextExtraction\<close>, and a blank page
  matches no quote and is never reported as found.
\<close>

theorem blank_page_keeps_cache_and_never_matches:
  assumes "pageRefs st p = Some h" and "blank h" and "blank later"
    and "1 \<le> p" and "p \<le> numPagesOr 0 (numPages st)"
  shows "snd (onPageRender st' p' later') \<le> 2 \<and>
         snd (onPageRender st p later) = 2 \<and>
         pageTextsRef (fst (onPageRender st p later)) = pageTextsRef st \<and>
         (p, case pageTextsRef st p of None \<Rightarrow> [] | Some t \<Rightarrow> t)
            \<in> set (getPageTexts (fst (onPageRender st p later))) \<and>
         (\<forall>q. \<not> matchesOn (fst (onPageRender st p later)) q p) \<and>
         (\<forall>c. LogFound p \<notin> set (drop (length (effects (fst (onPageRender st p later))))
                  (effects (jumpTo (fst (onPageRender st p later)) c)))) \<and>
         (\<forall>cache q p'. matchesOn (st\<lparr>pageTextsRef := cache\<rparr>) q p' = matchesOn st q p') \<and>
         (\<forall>q p'. matchesOn (forceTextExtraction st) q p' = matchesOn st q p') \<and>
         pageTextsRef (forceTextExtraction (fst (onPageRender st p later))) p =
           (case h of Some spans \<Rightarrow> Some (join (map textContent spans)) | None \<Rightarrow> pageTextsRef st p)"
proof -
  let ?st = "fst (onPageRender st p later)"
  have r: "onPageRender st p later = (st\<lparr>pageTextsRef := pageTextsRef st\<rparr>, 2)"
    using assms(1-3) by (rule onPageRender_blank)
  have refs: "pageRefs ?st p = Some h" and cache: "pageTextsRef ?st = pageTextsRef st"
    and np: "numPages ?st = numPages st"
    using assms(1) by (simp_all add: r)
  have nm: "\<not> matchesOn ?st q p" for q
    unfolding matchesOn_def using refs assms(2) by (rule highlightQuote_blank)
  have g: "(p, case pageTextsRef st p of None \<Rightarrow> [] | Some t \<Rightarrow> t) \<in> set (getPageTexts ?st)"
    using getPageTexts_entry [of p ?st] assms(4,5) by (simp add: np cache)
  have j: "\<forall>c. LogFound p \<notin> set (drop (length (effects ?st)) (effects (jumpTo ?st c)))"
    using nm by (intro allI jumpTo_never_finds) simp
  have two: "snd (onPageRender st p later) = 2" by (simp add: r)
  have bound: "snd (onPageRender st' p' later') \<le> 2" by (rule onPageRender_bound)
  have nm': "\<forall>q. \<not> matchesOn ?st q p" using nm by simp
  have mc: "\<forall>cache q p'. matchesOn (st\<lparr>pageTextsRef := cache\<rparr>) q p' = matchesOn st q p'"
    by (intro allI) (rule matchesOn_cache)
  have mf: "\<forall>q p'. matchesOn (forceTextExtraction st) q p' = matchesOn st q p'"
    by (intro allI) (rule matchesOn_force)
  have f: "pageTextsRef (forceTextExtraction ?st) p =
           (case h of Some spans \<Rightarrow> Some (join (map textContent spans)) | None \<Rightarrow> pageTextsRef st p)"
    using forceTextExtraction_entry [of p ?st] assms(4,5)
    by (simp add: np refs cache split: option.splits)
  show ?thesis
    by (rule conjI [OF bound conjI [OF two conjI [OF cache conjI [OF g conjI [OF nm'
          conjI [OF j conjI [OF mc conjI [OF mf f]]]]]]]])
qed

theorem blank_page_keeps_cache_and_never_matches_witness:
  "pageRefs (document [[''alpha''], ['' '', '''']]) 2 = Some (Some (map plainSpan ['' '', ''''])) \<and>
   blank (Some (map plainSpan ['' '', ''''])) \<and> blank None \<and>
   getPageTexts (fst (onPageRender (document [[''alpha''], ['' '', '''']]) 2 None)) = [(1, []), (2, [])] \<and>
   \<not> matchesOn (fst (onPageRender (document [[''alpha''], ['' '', '''']]) 2 None)) ''alpha'' 2 \<and>
   pageTextsRef (forceTextExtraction (fst (onPageRender (document [[''alpha''], ['' '', '''']]) 2 None))) 2
     = Some ''  ''"
proof -
  let ?st = "document [[''alpha''], ['' '', '''']]"
  let ?h = "Some (map plainSpan ['' '', ''''])"
  have h1: "pageRefs ?st 2 = Some ?h" by code_simp
  have h2: "blank ?h" by code_simp
  have h3: "blank None" by (simp add: blank_def)
  have h5: "(1::nat) \<le> 2" by simp
  have h6: "2 \<le> numPagesOr 0 (numPages ?st)" by code_simp
  note T = blank_page_keeps_cache_and_never_matches [OF h1 h2 h3 h5 h6]
  have g: "getPageTexts (fst (onPageRender ?st 2 None)) = [(1, []), (2, [])]" by code_simp
  from T [THEN conjunct2, THEN conjunct2, THEN conjunct2, THEN conjunct2, THEN conjunct1]
  have a: "\<not> matchesOn (fst (onPageRender ?st 2 None)) ''alpha'' 2" by (rule spec)
  have jn: "join (map textContent (map plainSpan ['' '', ''''])) = ''  ''" by code_simp
  from T [THEN conjunct2, THEN conjunct2, THEN conjunct2, THEN conjunct2, THEN conjunct2,
      THEN conjunct2, THEN conjunct2, THEN conjunct2]
  have b: "pageTextsRef (forceTextExtraction (fst (onPageRender ?st 2 None))) 2 = Some ''  ''"
    by (simp add: plainSpan_def)
  show ?thesis
    by (rule conjI [OF h1 conjI [OF h2 conjI [OF h3 conjI [OF g conjI [OF a b]]]]])
qed

section \<open>Jumping without a quote\<close>

text \<open>
  C5, as the claim has it, fails for the full-document \<^verbatim>\<open>jumpTo\<close>: with the hint 3 on a
  three-page document and no quote it scrolls to page 1.
\<close>

theorem hint_ignored_without_quote:
  "falsy (quote (citing (Some 3) Undefined)) \<and>
   page (citing (Some 3) Undefined) = Some 3 \<and>
   pageRefs (document [[''one''], [''two''], [''three'']]) 3 \<noteq> None \<and>
   effects (jumpTo (document [[''one''], [''two''], [''three'']]) (citing (Some 3) Undefined))
     = [ScrollIntoView 1]"
  by code_simp

text \<open>
  C5, amended. Without a quote (undefined, null or empty) the full-document \<^verbatim>\<open>jumpTo\<close>
  scrolls to page 1 when that page is mounted, whatever the hint, and changes nothing else:
  no highlight is applied or removed. The older copy scrolls to the hinted page instead,
  clamped into 1..\<^verbatim>\<open>numPages || 1\<close> (page 1 without a hint), if that page is mounted, rings
  it, and leaves the highlights alone as well.
\<close>

theorem jumpTo_without_quote:
  assumes "falsy (quote c)"
  shows "jumpTo st c =
           st\<lparr>effects := effects st @ (if pageRefs st 1 = None then [] else [ScrollIntoView 1])\<rparr> \<and>
         pageRefs (jumpTo st c) = pageRefs st \<and>
         jumpTo_alt st c =
           (if pageRefs st (hintedPage (page c) (numPages st)) = None then st
            else st\<lparr>effects := effects st @
                   [RingOn (hintedPage (page c) (numPages st)),
                    ScrollIntoView (hintedPage (page c) (numPages st)),
                    RingOff (hintedPage (page c) (numPages st))]\<rparr>) \<and>
         1 \<le> hintedPage (page c) (numPages st) \<and>
         hintedPage (page c) (numPages st) \<le> lastPage st \<and>
         (page c = None \<longrightarrow> hintedPage (page c) (numPages st) = 1) \<and>
         (\<forall>t. page c = Some t \<and> 1 \<le> t \<and> t \<le> int (lastPage st)
            \<longrightarrow> hintedPage (page c) (numPages st) = nat t)"
proof -
  have l: "1 \<le> lastPage st"
    by (simp add: lastPage_def numPagesOr_def split: option.splits)
  have a: "jumpTo st c =
      st\<lparr>effects := effects st @ (if pageRefs st 1 = None then [] else [ScrollIntoView 1])\<rparr>"
    using assms by (auto simp: jumpTo_def scrollToFirst_def split: option.splits)
  from a have b: "pageRefs (jumpTo st c) = pageRefs st" by simp
  have c: "jumpTo_alt st c =
           (if pageRefs st (hintedPage (page c) (numPages st)) = None then st
            else st\<lparr>effects := effects st @
                   [RingOn (hintedPage (page c) (numPages st)),
                    ScrollIntoView (hintedPage (page c) (numPages st)),
                    RingOff (hintedPage (page c) (numPages st))]\<rparr>)"
    using assms by (auto simp: jumpTo_alt_def Let_def split: option.splits)
  have d: "1 \<le> hintedPage (page c) (numPages st)"
    using l by (auto simp: hintedPage_def lastPage_def split: option.splits)
  have e: "hintedPage (page c) (numPages st) \<le> lastPage st"
    using l by (auto simp: hintedPage_def lastPage_def split: option.splits)
  have f: "page c = None \<longrightarrow> hintedPage (page c) (numPages st) = 1"
    using l by (auto simp: hintedPage_def lastPage_def)
  have g: "\<forall>t. page c = Some t \<and> 1 \<le> t \<and> t \<le> int (lastPage st)
            \<longrightarrow> hintedPage (page c) (numPages st) = nat t"
    by (auto simp: hintedPage_def lastPage_def)
  show ?thesis
    by (rule conjI [OF a conjI [OF b conjI [OF c conjI [OF d conjI [OF e conjI [OF f g]]]]]])
qed

theorem jumpTo_without_quote_witness:
  "falsy (quote (citing (Some 3) (Str []))) \<and>
   effects (jumpTo (document [[''one''], [''two''], [''three'']]) (citing (Some 3) (Str [])))
     = [ScrollIntoView 1] \<and>
   effects (jumpTo_alt (document [[''one''], [''two''], [''three'']]) (citing (Some 3) (Str [])))
     = [RingOn 3, ScrollIntoView 3, RingOff 3]"
proof -
  let ?st = "document [[''one''], [''two''], [''three'']]"
  let ?c = "citing (Some 3) (Str [])"
  have h: "falsy (quote ?c)" by (simp add: citing_def falsy_def)
  note T = jumpTo_without_quote [OF h, of ?st]
  have m1: "pageRefs ?st 1 \<noteq> None" by code_simp
  have hp: "hintedPage (page ?c) (numPages ?st) = 3" by code_simp
  have m3: "pageRefs ?st 3 \<noteq> None" by code_simp
  have e: "effects ?st = []" by (simp add: document_def)
  from T [THEN conjunct1] have a: "effects (jumpTo ?st ?c) = [ScrollIntoView 1]"
    using m1 by (simp add: e)
  from T [THEN conjunct2, THEN conjunct2, THEN conjunct1]
  have b: "effects (jumpTo_alt ?st ?c) = [RingOn 3, ScrollIntoView 3, RingOff 3]"
    unfolding hp using m3 by (simp add: e)
  show ?thesis by (rule conjI [OF h conjI [OF a b]])
qed

end
